theory Spec2Isabelle
  imports Main "HOL-Library.AList" "HOL-Library.Char_ord" "HOL-Library.List_Lexorder"
    "HOL-Library.Product_Lexorder"
begin

section \<open>Python values: errors, list indexing, dictionaries, integer formatting\<close>

text \<open>
  The exceptions that the scheduler's code can raise. A function that may raise returns
  \<open>error + 'a\<close>, with \<open>Inl\<close> for the exception.
\<close>

datatype error = AssertionError | KeyError | IndexError | AttributeError | ZeroDivisionError

fun bindE :: "error + 'a \<Rightarrow> ('a \<Rightarrow> error + 'b) \<Rightarrow> error + 'b" where
  "bindE (Inl e) f = Inl e"
| "bindE (Inr x) f = f x"

text \<open>\<open>xs[i]\<close> and \<open>xs[i] = v\<close>: a negative index counts from the end, an index out of
  range raises IndexError.\<close>

definition py_index :: "'a list \<Rightarrow> int \<Rightarrow> error + nat" where
  "py_index xs i =
     (if 0 \<le> i \<and> i < int (length xs) then Inr (nat i)
      else if i < 0 \<and> - int (length xs) \<le> i then Inr (nat (int (length xs) + i))
      else Inl IndexError)"

definition list_get :: "'a list \<Rightarrow> int \<Rightarrow> error + 'a" where
  "list_get xs i = bindE (py_index xs i) (\<lambda>j. Inr (xs ! j))"

definition list_set :: "'a list \<Rightarrow> int \<Rightarrow> 'a \<Rightarrow> error + 'a list" where
  "list_set xs i v = bindE (py_index xs i) (\<lambda>j. Inr (xs[j := v]))"

text \<open>\<open>a % b\<close> on Python integers: the sign of the result follows the divisor, as HOL's
  \<open>mod\<close> on \<open>int\<close> does; a zero divisor raises.\<close>

definition py_mod :: "int \<Rightarrow> int \<Rightarrow> error + int" where
  "py_mod a b = (if b = 0 then Inl ZeroDivisionError else Inr (a mod b))"

text \<open>A \<open>dict\<close> is an association list in insertion order: \<open>d[k] = v\<close> replaces the value of
  a key in place or appends a new key, which is \<open>AList.update\<close>.\<close>

definition dict_has :: "('k \<times> 'v) list \<Rightarrow> 'k \<Rightarrow> bool" where
  "dict_has d k = (map_of d k \<noteq> None)"

definition dict_get :: "('k \<times> 'v) list \<Rightarrow> 'k \<Rightarrow> error + 'v" where
  "dict_get d k = (case map_of d k of None \<Rightarrow> Inl KeyError | Some v \<Rightarrow> Inr v)"

definition dict_set :: "('k \<times> 'v) list \<Rightarrow> 'k \<Rightarrow> 'v \<Rightarrow> ('k \<times> 'v) list" where
  "dict_set d k v = AList.update k v d"

text \<open>\<open>str(n)\<close> and the format \<open>{n:03d}\<close> (sign first, then zeros up to a width of three).\<close>

function digits :: "nat \<Rightarrow> string" where
  "digits n = (if n < 10 then [''0123456789'' ! n]
               else digits (n div 10) @ [''0123456789'' ! (n mod 10)])"
  by pat_completeness auto
termination
  by (relation "measure (\<lambda>n. n)") auto

declare digits.simps [simp del]

definition str_int :: "int \<Rightarrow> string" where
  "str_int i = (if i < 0 then CHR ''-'' # digits (nat (- i)) else digits (nat i))"

definition fmt_03d :: "int \<Rightarrow> string" where
  "fmt_03d i =
     (let sgn = (if i < 0 then ''-'' else []);
          ds = digits (nat \<bar>i\<bar>)
      in sgn @ replicate (3 - length sgn - length ds) CHR ''0'' @ ds)"

fun join :: "string \<Rightarrow> string list \<Rightarrow> string" where
  "join sep [] = []"
| "join sep [x] = x"
| "join sep (x # y # ys) = x @ sep @ join sep (y # ys)"

section \<open>Task and QueueRR\<close>

record Task =
  task_id :: string
  remaining :: int

text \<open>The circular buffer: \<open>q_buf\<close>, \<open>q_front\<close> and \<open>q_size\<close> are the fields \<open>_buf\<close>,
  \<open>_front\<close> and \<open>_size\<close>.\<close>

record QueueRR =
  queue_id :: string
  capacity :: int
  q_buf :: "Task option list"
  q_front :: int
  q_size :: int

definition QueueRR_init :: "string \<Rightarrow> int \<Rightarrow> error + QueueRR" where
  "QueueRR_init qid cap =
     (if cap > 0
      then Inr \<lparr>queue_id = qid, capacity = cap, q_buf = replicate (nat cap) None,
                q_front = 0, q_size = 0\<rparr>
      else Inl AssertionError)"

definition q_enqueue :: "QueueRR \<Rightarrow> Task \<Rightarrow> error + (bool \<times> QueueRR)" where
  "q_enqueue q task =
     (if q_size q \<ge> capacity q then Inr (False, q)
      else bindE (py_mod (q_front q + q_size q) (capacity q)) (\<lambda>idx.
           bindE (list_set (q_buf q) idx (Some task)) (\<lambda>b.
           Inr (True, q\<lparr>q_buf := b, q_size := q_size q + 1\<rparr>))))"

definition q_dequeue :: "QueueRR \<Rightarrow> error + (Task option \<times> QueueRR)" where
  "q_dequeue q =
     (if q_size q = 0 then Inr (None, q)
      else bindE (list_get (q_buf q) (q_front q)) (\<lambda>t.
           bindE (list_set (q_buf q) (q_front q) None) (\<lambda>b.
           bindE (py_mod (q_front q + 1) (capacity q)) (\<lambda>f.
           Inr (t, q\<lparr>q_buf := b, q_front := f, q_size := q_size q - 1\<rparr>)))))"

definition q_peek :: "QueueRR \<Rightarrow> error + Task option" where
  "q_peek q = (if q_size q = 0 then Inr None else list_get (q_buf q) (q_front q))"

definition q_len :: "QueueRR \<Rightarrow> int" where
  "q_len q = q_size q"

text \<open>\<open>tasks_list\<close>: the loop \<open>for _ in range(self._size)\<close>, with the index and the output
  list as its state.\<close>

fun tasks_loop :: "QueueRR \<Rightarrow> nat \<Rightarrow> int \<Rightarrow> Task list \<Rightarrow> error + Task list" where
  "tasks_loop q 0 idx out = Inr out"
| "tasks_loop q (Suc k) idx out =
     bindE (list_get (q_buf q) idx) (\<lambda>t.
     bindE (py_mod (idx + 1) (capacity q)) (\<lambda>idx'.
     tasks_loop q k idx' (case t of Some x \<Rightarrow> out @ [x] | None \<Rightarrow> out)))"

definition tasks_list :: "QueueRR \<Rightarrow> error + Task list" where
  "tasks_list q = tasks_loop q (nat (q_size q)) (q_front q) []"

section \<open>Scheduler\<close>

definition REQUIRED_MENU :: "(string \<times> int) list" where
  "REQUIRED_MENU =
     [(''americano'', 2), (''latte'', 3), (''cappuccino'', 3), (''mocha'', 4), (''tea'', 1),
      (''macchiato'', 2), (''hot_chocolate'', 4)]"

text \<open>The dispatcher; \<open>menu\<close> is the field \<open>_menu\<close>.\<close>

record Scheduler =
  time :: int
  queues :: "(string \<times> QueueRR) list"
  queue_order :: "string list"
  id_counters :: "(string \<times> int) list"
  skip_flags :: "(string \<times> bool) list"
  rr_index :: int
  menu :: "(string \<times> int) list"

definition Scheduler_init :: Scheduler where
  "Scheduler_init =
     \<lparr>time = 0, queues = [], queue_order = [], id_counters = [], skip_flags = [],
      rr_index = 0, menu = REQUIRED_MENU\<rparr>"

text \<open>\<open>next_queue\<close> normalises \<open>rr_index\<close> before it reads the order, so it returns the
  state as well.\<close>

definition next_queue :: "Scheduler \<Rightarrow> error + (string option \<times> Scheduler)" where
  "next_queue s =
     (if queue_order s = [] then Inr (None, s)
      else
        let s1 = (if rr_index s < 0 then s\<lparr>rr_index := 0\<rparr> else s);
            s2 = (if rr_index s1 \<ge> int (length (queue_order s1))
                  then s1\<lparr>rr_index := rr_index s1 mod int (length (queue_order s1))\<rparr>
                  else s1)
        in bindE (list_get (queue_order s2) (rr_index s2)) (\<lambda>qid. Inr (Some qid, s2)))"

subsection \<open>Commands\<close>

definition create_queue :: "Scheduler \<Rightarrow> string \<Rightarrow> int \<Rightarrow> error + (string list \<times> Scheduler)" where
  "create_queue s qid cap =
     bindE (QueueRR_init qid cap) (\<lambda>q.
       let s' = s\<lparr>queues := dict_set (queues s) qid q,
                  queue_order := queue_order s @ [qid],
                  id_counters := dict_set (id_counters s) qid 0,
                  skip_flags := dict_set (skip_flags s) qid False\<rparr>
       in Inr ([''time='' @ str_int (time s') @ '' event=create queue='' @ qid], s'))"

definition reject_log :: "Scheduler \<Rightarrow> string \<Rightarrow> string \<Rightarrow> string" where
  "reject_log s qid reason =
     ''time='' @ str_int (time s) @ '' event=reject queue='' @ qid @ '' reason='' @ reason"

text \<open>\<open>Scheduler.enqueue\<close> returns its log lines; the model returns the lines it prints
  as well, second.\<close>

definition enqueue ::
  "Scheduler \<Rightarrow> string \<Rightarrow> string \<Rightarrow> error + (string list \<times> string list \<times> Scheduler)" where
  "enqueue s qid item_name =
     (if \<not> dict_has (menu s) item_name
      then Inr ([reject_log s qid ''unknown_item''],
                [''Sorry, we don'' @ [CHR 0x27] @ ''t serve that.''], s)
      else if \<not> dict_has (queues s) qid
      then Inr ([reject_log s qid ''unknown_queue''], [], s)
      else
        bindE (dict_get (menu s) item_name) (\<lambda>burst.
        bindE (dict_get (id_counters s) qid) (\<lambda>c.
        let s1 = s\<lparr>id_counters := dict_set (id_counters s) qid (c + 1)\<rparr> in
        bindE (dict_get (id_counters s1) qid) (\<lambda>c1.
        let tid = qid @ ''-'' @ fmt_03d c1;
            task = \<lparr>task_id = tid, remaining = burst\<rparr>
        in
        bindE (dict_get (queues s1) qid) (\<lambda>q.
        bindE (q_enqueue q task) (\<lambda>(ok, q').
        let s2 = s1\<lparr>queues := dict_set (queues s1) qid q'\<rparr> in
        if \<not> ok
        then Inr ([reject_log s2 qid ''full''],
                  [''Sorry, we'' @ [CHR 0x27] @ ''re at capacity.''], s2)
        else Inr ([''time='' @ str_int (time s2) @ '' event=enqueue queue='' @ qid
                    @ '' task='' @ tid @ '' remaining='' @ str_int burst], [], s2)))))))"

definition mark_skip :: "Scheduler \<Rightarrow> string \<Rightarrow> string list \<times> Scheduler" where
  "mark_skip s qid =
     ([''time='' @ str_int (time s) @ '' event=skip queue='' @ qid],
      if dict_has (skip_flags s) qid
      then s\<lparr>skip_flags := dict_set (skip_flags s) qid True\<rparr>
      else s)"

subsection \<open>Display\<close>

definition skip_flag_get :: "Scheduler \<Rightarrow> string \<Rightarrow> bool" where
  "skip_flag_get s qid = (case map_of (skip_flags s) qid of Some v \<Rightarrow> v | None \<Rightarrow> False)"

definition display_queue :: "Scheduler \<Rightarrow> string \<Rightarrow> error + string" where
  "display_queue s qid =
     bindE (dict_get (queues s) qid) (\<lambda>q.
     let skip_text = (if skip_flag_get s qid then '' skip'' else []) in
     bindE (tasks_list q) (\<lambda>tasks.
     let tasks_text = join '','' (map (\<lambda>t. task_id t @ '':'' @ str_int (remaining t)) tasks) in
     Inr (''display '' @ qid @ '' ['' @ str_int (q_len q) @ ''/'' @ str_int (capacity q) @ '']''
            @ skip_text @ '' -> ['' @ tasks_text @ '']'')))"

fun display_queues :: "Scheduler \<Rightarrow> string list \<Rightarrow> error + string list" where
  "display_queues s [] = Inr []"
| "display_queues s (qid # rest) =
     bindE (display_queue s qid) (\<lambda>l.
     bindE (display_queues s rest) (\<lambda>ls. Inr (l # ls)))"

definition display_head :: "Scheduler \<Rightarrow> string option \<Rightarrow> string" where
  "display_head s nxt =
     ''display time='' @ str_int (time s) @ '' next=''
       @ (case nxt of Some qid \<Rightarrow> qid | None \<Rightarrow> ''None'')"

definition display_menu :: "Scheduler \<Rightarrow> string" where
  "display_menu s =
     ''display menu=['' @ join '','' (map (\<lambda>(k, v). k @ '':'' @ str_int v) (sort (menu s)))
       @ '']''"

definition display :: "Scheduler \<Rightarrow> error + (string list \<times> Scheduler)" where
  "display s =
     bindE (next_queue s) (\<lambda>(nxt, s1).
     bindE (display_queues s1 (queue_order s1)) (\<lambda>ls.
     Inr (display_head s1 nxt # display_menu s1 # ls, s1)))"

subsection \<open>The dispatch loop\<close>

text \<open>The two conditions of the quiescence test; \<open>all\<close> stops at the first queue that is
  not empty.\<close>

fun all_empty_from :: "Scheduler \<Rightarrow> string list \<Rightarrow> error + bool" where
  "all_empty_from s [] = Inr True"
| "all_empty_from s (qx # rest) =
     bindE (dict_get (queues s) qx) (\<lambda>q.
     if q_len q = 0 then all_empty_from s rest else Inr False)"

definition all_empty :: "Scheduler \<Rightarrow> error + bool" where
  "all_empty s = all_empty_from s (queue_order s)"

definition all_clear :: "Scheduler \<Rightarrow> bool" where
  "all_clear s = list_all (\<lambda>(k, v). \<not> v) (skip_flags s)"

definition quiescent :: "Scheduler \<Rightarrow> error + bool" where
  "quiescent s = bindE (all_empty s) (\<lambda>ae. Inr (ae \<and> all_clear s))"

definition advance :: "Scheduler \<Rightarrow> int \<Rightarrow> Scheduler" where
  "advance s n_queues = s\<lparr>rr_index := (rr_index s + 1) mod n_queues\<rparr>"

definition run_log :: "Scheduler \<Rightarrow> string \<Rightarrow> string" where
  "run_log s qid = ''time='' @ str_int (time s) @ '' event=run queue='' @ qid"

definition finish_log :: "Scheduler \<Rightarrow> string \<Rightarrow> Task \<Rightarrow> string" where
  "finish_log s qid t =
     ''time='' @ str_int (time s) @ '' event=finish queue='' @ qid @ '' id='' @ task_id t"

definition work_log :: "Scheduler \<Rightarrow> string \<Rightarrow> Task \<Rightarrow> string" where
  "work_log s qid t =
     ''time='' @ str_int (time s) @ '' event=work queue='' @ qid @ '' id='' @ task_id t
       @ '' remaining='' @ str_int (remaining t)"

text \<open>
  The work branch of one turn. \<open>front_task\<close> is the object in the slot \<open>_buf[_front]\<close>,
  so the assignment to its \<open>remaining\<close> is an update of that slot; the queue object is the
  one stored under \<open>qid\<close>, so every change of it is written to \<open>queues\<close>. The result is
  the event line and the state before the pointer moves.
\<close>

definition work_turn ::
  "int \<Rightarrow> Scheduler \<Rightarrow> string \<Rightarrow> QueueRR \<Rightarrow> error + (string \<times> Scheduler)" where
  "work_turn quantum s qid q =
     bindE (q_peek q) (\<lambda>front_task.
     case front_task of
       None \<Rightarrow> Inl AssertionError
     | Some ft \<Rightarrow>
         let work_amount = min quantum (remaining ft);
             ft' = ft\<lparr>remaining := remaining ft - work_amount\<rparr>
         in
         bindE (list_set (q_buf q) (q_front q) (Some ft')) (\<lambda>b.
         let q1 = q\<lparr>q_buf := b\<rparr>;
             s1 = s\<lparr>time := time s + work_amount, queues := dict_set (queues s) qid q1\<rparr>
         in
         if remaining ft' = 0 then
           bindE (q_dequeue q1) (\<lambda>(finished, q2).
           let s2 = s1\<lparr>queues := dict_set (queues s1) qid q2\<rparr> in
           case finished of
             None \<Rightarrow> Inl AttributeError
           | Some f \<Rightarrow> Inr (finish_log s2 qid f, s2))
         else
           bindE (q_dequeue q1) (\<lambda>(t, q2).
           case t of
             None \<Rightarrow> Inl AssertionError
           | Some t' \<Rightarrow>
               bindE (q_enqueue q2 t') (\<lambda>(success, q3).
               let s2 = s1\<lparr>queues := dict_set (queues s1) qid q3\<rparr> in
               if \<not> success then Inr (finish_log s2 qid t', s2)
               else Inr (work_log s2 qid t', s2)))))"

text \<open>
  One iteration of the \<open>while True\<close> loop, from the guard of \<open>rr_index\<close> to the increment
  of \<open>turns_done\<close>: the skip and the empty branch display and then advance the pointer,
  the work branch advances the pointer and then displays.
\<close>

definition turn :: "int \<Rightarrow> Scheduler \<Rightarrow> error + (string list \<times> Scheduler)" where
  "turn quantum s0 =
     (let n_queues = int (length (queue_order s0));
          s = (if rr_index s0 \<ge> n_queues then s0\<lparr>rr_index := rr_index s0 mod n_queues\<rparr>
               else s0)
      in
      bindE (list_get (queue_order s) (rr_index s)) (\<lambda>qid.
      bindE (dict_get (queues s) qid) (\<lambda>q.
      if skip_flag_get s qid then
        let s1 = s\<lparr>skip_flags := dict_set (skip_flags s) qid False\<rparr> in
        bindE (display s1) (\<lambda>(lines, s2).
        Inr (run_log s qid # lines, advance s2 n_queues))
      else if q_len q = 0 then
        bindE (display s) (\<lambda>(lines, s2).
        Inr (run_log s qid # lines, advance s2 n_queues))
      else
        bindE (work_turn quantum s qid q) (\<lambda>(event, s2).
        bindE (display (advance s2 n_queues)) (\<lambda>(lines, s3).
        Inr (run_log s qid # event # lines, s3))))))"

text \<open>
  The loop, with \<open>turns_done\<close> and \<open>logs\<close> as its variables. It may run forever when
  \<open>max_turns\<close> is \<open>None\<close>, which is the value \<open>None\<close> of the model.
\<close>

partial_function (option) run_loop ::
  "int \<Rightarrow> int option \<Rightarrow> int \<Rightarrow> string list \<Rightarrow> Scheduler
     \<Rightarrow> (error + (int \<times> string list \<times> Scheduler)) option" where
  "run_loop quantum max_turns turns_done logs s =
     (if (case max_turns of Some m \<Rightarrow> turns_done \<ge> m | None \<Rightarrow> False)
      then Some (Inr (turns_done, logs, s))
      else if length (queue_order s) = 0 then Some (Inr (turns_done, logs, s))
      else
        case turn quantum s of
          Inl e \<Rightarrow> Some (Inl e)
        | Inr (lines, s') \<Rightarrow>
            if max_turns = None then
              (case quiescent s' of
                 Inl e \<Rightarrow> Some (Inl e)
               | Inr stop \<Rightarrow>
                   if stop then Some (Inr (turns_done + 1, logs @ lines, s'))
                   else run_loop quantum max_turns (turns_done + 1) (logs @ lines) s')
            else run_loop quantum max_turns (turns_done + 1) (logs @ lines) s')"

declare run_loop.simps [code]

definition run ::
  "Scheduler \<Rightarrow> int \<Rightarrow> int option \<Rightarrow> (error + (string list \<times> Scheduler)) option" where
  "run s quantum steps =
     (let n_queues = int (length (queue_order s)) in
      if n_queues = 0 then Some (Inr ([], s))
      else if (case steps of Some k \<Rightarrow> \<not> (1 \<le> k \<and> k \<le> n_queues) | None \<Rightarrow> False)
      then Some (Inr ([''time='' @ str_int (time s) @ '' event=error reason=invalid_steps''], s))
      else
        let s1 = (if rr_index s \<ge> n_queues then s\<lparr>rr_index := rr_index s mod n_queues\<rparr>
                  else s)
        in
        case run_loop quantum steps 0 [] s1 of
          None \<Rightarrow> None
        | Some (Inl e) \<Rightarrow> Some (Inl e)
        | Some (Inr (turns_done, logs, s')) \<Rightarrow> Some (Inr (logs, s')))"

section \<open>The queue as a list\<close>

text \<open>
  \<open>slots\<close> reads the \<open>q_size\<close> slots of the buffer from \<open>q_front\<close> on, wrapping around.
  A well-formed queue has its indices inside its buffer and a task in each of these
  slots.
\<close>

definition slots :: "QueueRR \<Rightarrow> Task option list" where
  "slots q =
     map (\<lambda>i. q_buf q ! nat ((q_front q + int i) mod capacity q)) [0..<nat (q_size q)]"

definition q_tasks :: "QueueRR \<Rightarrow> Task list" where
  "q_tasks q = map the (slots q)"

definition q_wf :: "QueueRR \<Rightarrow> bool" where
  "q_wf q \<longleftrightarrow>
     0 < capacity q \<and> length (q_buf q) = nat (capacity q) \<and>
     0 \<le> q_front q \<and> q_front q < capacity q \<and>
     0 \<le> q_size q \<and> q_size q \<le> capacity q \<and>
     list_all (\<lambda>x. x \<noteq> None) (slots q)"

section \<open>Command sequences, turns and the invariant\<close>

text \<open>The commands of the line driver, and the method each one calls; \<open>DISPLAY\<close> is the
  snapshot on demand.\<close>

datatype command =
  CREATE string int | ENQ string string | SKIP string | RUN int "int option" | DISPLAY

fun exec :: "Scheduler \<Rightarrow> command \<Rightarrow> (error + (string list \<times> Scheduler)) option" where
  "exec s (CREATE qid cap) = Some (create_queue s qid cap)"
| "exec s (ENQ qid item_name) =
     Some (bindE (enqueue s qid item_name) (\<lambda>(logs, printed, s'). Inr (logs, s')))"
| "exec s (SKIP qid) = Some (Inr (mark_skip s qid))"
| "exec s (RUN quantum steps) = run s quantum steps"
| "exec s DISPLAY = Some (display s)"

fun exec_all :: "Scheduler \<Rightarrow> command list \<Rightarrow> (error + Scheduler) option" where
  "exec_all s [] = Some (Inr s)"
| "exec_all s (c # cs) =
     (case exec s c of
        None \<Rightarrow> None
      | Some (Inl e) \<Rightarrow> Some (Inl e)
      | Some (Inr (logs, s')) \<Rightarrow> exec_all s' cs)"

definition nonneg_quantum :: "command \<Rightarrow> bool" where
  "nonneg_quantum c = (case c of RUN quantum steps \<Rightarrow> 0 \<le> quantum | _ \<Rightarrow> True)"

text \<open>\<open>k\<close> turns in a row.\<close>

fun turns :: "int \<Rightarrow> nat \<Rightarrow> Scheduler \<Rightarrow> error + (string list \<times> Scheduler)" where
  "turns quantum 0 s = Inr ([], s)"
| "turns quantum (Suc k) s =
     bindE (turn quantum s) (\<lambda>(l1, s1).
     bindE (turns quantum k s1) (\<lambda>(l2, s2). Inr (l1 @ l2, s2)))"

text \<open>
  The invariant of the dispatcher: the three dictionaries have the keys of
  \<open>queue_order\<close>, every queue is well formed and holds tasks with work left, the pointer
  is inside the order, and the menu is the fixed one.
\<close>

definition tasks_pos :: "QueueRR \<Rightarrow> bool" where
  "tasks_pos q = list_all (\<lambda>t. 0 < remaining t) (q_tasks q)"

definition sched_inv :: "Scheduler \<Rightarrow> bool" where
  "sched_inv s \<longleftrightarrow>
     distinct (map fst (queues s)) \<and> distinct (map fst (skip_flags s)) \<and>
     set (map fst (queues s)) = set (queue_order s) \<and>
     set (map fst (id_counters s)) = set (queue_order s) \<and>
     set (map fst (skip_flags s)) = set (queue_order s) \<and>
     list_all (\<lambda>(k, q). q_wf q \<and> tasks_pos q) (queues s) \<and>
     0 \<le> rr_index s \<and>
     (rr_index s < int (length (queue_order s)) \<or> queue_order s = [] \<and> rr_index s = 0) \<and>
     menu s = REQUIRED_MENU"

definition cap_ok :: "Scheduler \<Rightarrow> bool" where
  "cap_ok s = list_all (\<lambda>(k, q). 0 \<le> q_size q \<and> q_size q \<le> capacity q) (queues s)"

text \<open>The queue that the next turn visits, for a pointer inside the order.\<close>

definition cur :: "Scheduler \<Rightarrow> string" where
  "cur s = queue_order s ! nat (rr_index s)"

section \<open>Work of a turn, idle queues and the load of a state\<close>

text \<open>
  \<open>work_amount\<close> is the value of \<open>work_amount\<close> in the turn that visits \<open>cur s\<close>, and 0
  for a turn that takes the skip or the empty branch. A queue is idle when its flag is
  clear and it holds no task. The load of a state counts the work left in all queues and
  the flags that are set; \<open>gap\<close> is the number of idle positions from the pointer on.
\<close>

definition work_amount :: "int \<Rightarrow> Scheduler \<Rightarrow> int" where
  "work_amount quantum s =
     (case map_of (queues s) (cur s) of
        None \<Rightarrow> 0
      | Some q \<Rightarrow>
          if skip_flag_get s (cur s) \<or> q_len q = 0 then 0
          else min quantum (remaining (hd (q_tasks q))))"

definition idle :: "Scheduler \<Rightarrow> string \<Rightarrow> bool" where
  "idle s qid \<longleftrightarrow>
     \<not> skip_flag_get s qid \<and>
     (case map_of (queues s) qid of Some q \<Rightarrow> q_size q = 0 | None \<Rightarrow> True)"

definition q_weight :: "QueueRR \<Rightarrow> nat" where
  "q_weight q = sum_list (map (\<lambda>t. nat (remaining t)) (q_tasks q))"

definition load :: "Scheduler \<Rightarrow> nat" where
  "load s =
     sum_list (map (\<lambda>(k, q). q_weight q) (queues s)) + length (filter snd (skip_flags s))"

definition gap :: "Scheduler \<Rightarrow> nat" where
  "gap s =
     (LEAST d. \<not> idle s (queue_order s ! ((nat (rr_index s) + d) mod length (queue_order s))))"

section \<open>Example states\<close>

text \<open>\<open>cafe_state\<close> is the dispatcher after \<open>CREATE A 2\<close>, \<open>ENQ A latte\<close>, \<open>CREATE B 1\<close>;
  \<open>full_state\<close> is the dispatcher after \<open>CREATE A 1\<close>, \<open>ENQ A latte\<close>.\<close>

definition cafe_commands :: "command list" where
  "cafe_commands = [CREATE ''A'' 2, ENQ ''A'' ''latte'', CREATE ''B'' 1]"

definition cafe_queue_A :: QueueRR where
  "cafe_queue_A =
     \<lparr>queue_id = ''A'', capacity = 2,
      q_buf = [Some \<lparr>task_id = ''A-001'', remaining = 3\<rparr>, None],
      q_front = 0, q_size = 1\<rparr>"

definition cafe_queue_B :: QueueRR where
  "cafe_queue_B =
     \<lparr>queue_id = ''B'', capacity = 1, q_buf = [None], q_front = 0, q_size = 0\<rparr>"

definition cafe_state :: Scheduler where
  "cafe_state =
     \<lparr>time = 0,
      queues = [(''A'', cafe_queue_A), (''B'', cafe_queue_B)],
      queue_order = [''A'', ''B''],
      id_counters = [(''A'', 1), (''B'', 0)],
      skip_flags = [(''A'', False), (''B'', False)],
      rr_index = 0,
      menu = REQUIRED_MENU\<rparr>"

definition full_commands :: "command list" where
  "full_commands = [CREATE ''A'' 1, ENQ ''A'' ''latte'']"

definition full_state :: Scheduler where
  "full_state =
     \<lparr>time = 0,
      queues =
        [(''A'', \<lparr>queue_id = ''A'', capacity = 1,
                  q_buf = [Some \<lparr>task_id = ''A-001'', remaining = 3\<rparr>],
                  q_front = 0, q_size = 1\<rparr>)],
      queue_order = [''A''],
      id_counters = [(''A'', 1)],
      skip_flags = [(''A'', False)],
      rr_index = 0,
      menu = REQUIRED_MENU\<rparr>"

section \<open>Queue operations on well-formed queues\<close>

lemma bindE_Inr_iff:
  "bindE m f = Inr y \<longleftrightarrow> (\<exists>x. m = Inr x \<and> f x = Inr y)"
  by (cases m) auto

lemma py_index_in_range:
  "0 \<le> i \<Longrightarrow> i < int (length xs) \<Longrightarrow> py_index xs i = Inr (nat i)"
  by (simp add: py_index_def)

lemma list_get_in_range:
  "0 \<le> i \<Longrightarrow> i < int (length xs) \<Longrightarrow> list_get xs i = Inr (xs ! nat i)"
  by (simp add: list_get_def py_index_in_range)

lemma list_set_in_range:
  "0 \<le> i \<Longrightarrow> i < int (length xs) \<Longrightarrow> list_set xs i v = Inr (xs[nat i := v])"
  by (simp add: list_set_def py_index_in_range)

lemma wrap_inj:
  fixes f c :: int
  assumes "0 < c" "i < nat c" "j < nat c" "(f + int i) mod c = (f + int j) mod c"
  shows "i = j"
proof -
  from assms(4) have "c dvd (f + int i) - (f + int j)"
    by (simp add: mod_eq_dvd_iff)
  then have d: "c dvd int i - int j" by simp
  have "\<bar>int i - int j\<bar> < c" using assms(1-3) by linarith
  with d have "int i - int j = 0"
    using zdvd_not_zless [of "\<bar>int i - int j\<bar>" c] by (cases "int i - int j = 0") auto
  then show ?thesis by simp
qed

lemma wrap_bound:
  fixes f c :: int
  assumes "0 < c"
  shows "nat ((f + int i) mod c) < nat c"
  using assms by (simp add: nat_less_iff)

lemma slots_length [simp]: "length (slots q) = nat (q_size q)"
  by (simp add: slots_def)

lemma q_tasks_length [simp]: "length (q_tasks q) = nat (q_size q)"
  by (simp add: q_tasks_def)

lemma slots_nth:
  "i < nat (q_size q) \<Longrightarrow> slots q ! i = q_buf q ! nat ((q_front q + int i) mod capacity q)"
  by (simp add: slots_def)

lemma QueueRR_init_wf:
  assumes "0 < cap"
  shows "QueueRR_init qid cap =
           Inr \<lparr>queue_id = qid, capacity = cap, q_buf = replicate (nat cap) None,
                q_front = 0, q_size = 0\<rparr>"
    and "QueueRR_init qid cap = Inr q \<Longrightarrow> q_wf q \<and> q_size q = 0 \<and> capacity q = cap"
  using assms by (auto simp: QueueRR_init_def q_wf_def slots_def)

lemma QueueRR_init_Inr:
  "QueueRR_init qid cap = Inr q \<Longrightarrow> 0 < cap"
  by (simp add: QueueRR_init_def split: if_splits)

text \<open>\<open>tasks_list\<close> on a well-formed queue returns the tasks of the slots, head first.\<close>

lemma tasks_loop_slots:
  assumes "0 < capacity q" "length (q_buf q) = nat (capacity q)"
    "0 \<le> idx" "idx < capacity q"
    "\<forall>i<k. q_buf q ! nat ((idx + int i) mod capacity q) \<noteq> None"
  shows "tasks_loop q k idx out =
           Inr (out @ map (\<lambda>i. the (q_buf q ! nat ((idx + int i) mod capacity q))) [0..<k])"
  using assms
proof (induction k arbitrary: idx out)
  case 0
  then show ?case by simp
next
  case (Suc k)
  let ?c = "capacity q"
  have g: "list_get (q_buf q) idx = Inr (q_buf q ! nat idx)"
    using Suc.prems by (intro list_get_in_range) auto
  have m: "py_mod (idx + 1) ?c = Inr ((idx + 1) mod ?c)"
    using Suc.prems by (simp add: py_mod_def)
  have sh: "\<And>i. ((idx + 1) mod ?c + int i) mod ?c = (idx + int (Suc i)) mod ?c"
    by (simp add: mod_simps ac_simps)
  have some: "q_buf q ! nat idx \<noteq> None"
    using Suc.prems(5) [rule_format, of 0] Suc.prems by simp
  have ih: "tasks_loop q k ((idx + 1) mod ?c) out' =
          Inr (out' @ map (\<lambda>i. the (q_buf q ! nat (((idx + 1) mod ?c + int i) mod ?c))) [0..<k])"
    for out'
  proof (rule Suc.IH)
    show "\<forall>i<k. q_buf q ! nat (((idx + 1) mod ?c + int i) mod ?c) \<noteq> None"
      using Suc.prems(5) by (auto simp: sh)
  qed (use Suc.prems in auto)
  have split_upt: "[0..<Suc k] = 0 # map Suc [0..<k]"
    by (simp add: upt_conv_Cons map_Suc_upt del: upt_Suc)
  obtain x where x: "q_buf q ! nat idx = Some x" using some by auto
  have z: "idx mod ?c = idx" using Suc.prems by simp
  show ?case
    unfolding split_upt
    by (simp add: g m ih x sh z comp_def del: upt_Suc)
qed

lemma tasks_list_wf:
  assumes "q_wf q"
  shows "tasks_list q = Inr (q_tasks q)"
proof -
  have "\<forall>i<nat (q_size q). q_buf q ! nat ((q_front q + int i) mod capacity q) \<noteq> None"
    using assms by (auto simp: q_wf_def list_all_length slots_nth)
  then show ?thesis
    using assms tasks_loop_slots [of q "q_front q" "nat (q_size q)" "[]"]
    by (simp add: q_wf_def tasks_list_def q_tasks_def slots_def comp_def)
qed

lemma q_enqueue_full:
  "capacity q \<le> q_size q \<Longrightarrow> q_enqueue q t = Inr (False, q)"
  by (simp add: q_enqueue_def)

lemma q_enqueue_wf:
  fixes q :: QueueRR and t :: Task
  assumes "q_wf q" "q_size q < capacity q"
  defines "q' \<equiv> q\<lparr>q_buf := (q_buf q)[nat ((q_front q + q_size q) mod capacity q) := Some t],
                    q_size := q_size q + 1\<rparr>"
  shows "q_enqueue q t = Inr (True, q')" and "q_wf q'" and "slots q' = slots q @ [Some t]"
proof -
  let ?c = "capacity q" and ?n = "nat (q_size q)"
  let ?k = "nat ((q_front q + q_size q) mod ?c)"
  have c: "0 < ?c" and len: "length (q_buf q) = nat ?c" and sz: "0 \<le> q_size q"
    using assms(1) by (auto simp: q_wf_def)
  have kb: "?k < nat ?c" using wrap_bound [OF c, of "q_front q" ?n] sz by simp
  have "(q_front q + q_size q) mod ?c < int (length (q_buf q))"
    using c len by simp
  then show "q_enqueue q t = Inr (True, q')"
    using assms(2) c
    by (simp add: q_enqueue_def py_mod_def list_set_in_range q'_def)
  have other: "nat ((q_front q + int i) mod ?c) \<noteq> ?k" if "i < ?n" for i
  proof
    assume e: "nat ((q_front q + int i) mod ?c) = ?k"
    have "(q_front q + int i) mod ?c = (q_front q + int ?n) mod ?c"
      using e c sz by (simp add: nat_eq_iff)
    moreover have "i < nat ?c" "?n < nat ?c" using that assms(2) sz by linarith+
    ultimately have "i = ?n"
      using wrap_inj [OF c, of i ?n "q_front q"] by blast
    with that show False by simp
  qed
  have n': "nat (q_size q + 1) = Suc ?n" using sz by simp
  show s: "slots q' = slots q @ [Some t]"
    using kb len sz other [THEN not_sym] by (simp add: slots_def q'_def n')
  show "q_wf q'"
    using assms(1,2) s by (simp add: q_wf_def q'_def)
qed

lemma q_peek_wf:
  assumes "q_wf q" "q_size q \<noteq> 0"
  shows "q_peek q = Inr (Some (hd (q_tasks q)))"
proof -
  have n: "0 < nat (q_size q)" using assms by (simp add: q_wf_def)
  then have ne: "slots q \<noteq> []" by (metis length_greater_0_conv slots_length)
  have h: "hd (slots q) = q_buf q ! nat (q_front q)"
    using n assms(1) slots_nth [of 0 q] ne by (simp add: hd_conv_nth q_wf_def)
  have "hd (slots q) \<noteq> None"
    using assms(1) ne by (cases "slots q") (auto simp: q_wf_def)
  then have "hd (slots q) = Some (hd (q_tasks q))"
    using ne by (cases "slots q") (auto simp: q_tasks_def)
  with h show ?thesis
    using assms by (simp add: q_peek_def list_get_in_range q_wf_def)
qed

lemma q_dequeue_wf:
  fixes q :: QueueRR
  assumes "q_wf q" "q_size q \<noteq> 0"
  defines "q' \<equiv> q\<lparr>q_buf := (q_buf q)[nat (q_front q) := None],
                    q_front := (q_front q + 1) mod capacity q, q_size := q_size q - 1\<rparr>"
  shows "q_dequeue q = Inr (Some (hd (q_tasks q)), q')" and "q_wf q'"
    and "slots q' = tl (slots q)"
proof -
  let ?c = "capacity q" and ?n = "nat (q_size q)"
  have c: "0 < ?c" and len: "length (q_buf q) = nat ?c" and sz: "0 < q_size q"
    and f: "0 \<le> q_front q" "q_front q < ?c" and le: "q_size q \<le> ?c"
    using assms(1,2) by (auto simp: q_wf_def)
  have pk: "q_peek q = Inr (Some (hd (q_tasks q)))" by (rule q_peek_wf [OF assms(1,2)])
  then have g: "list_get (q_buf q) (q_front q) = Inr (Some (hd (q_tasks q)))"
    using assms(2) by (simp add: q_peek_def)
  show "q_dequeue q = Inr (Some (hd (q_tasks q)), q')"
    using assms(2) g c f len
    by (simp add: q_dequeue_def py_mod_def list_set_in_range q'_def)
  have sh: "((q_front q + 1) mod ?c + int i) mod ?c = (q_front q + int (Suc i)) mod ?c" for i
    by (simp add: mod_simps ac_simps)
  have other: "nat ((q_front q + int (Suc i)) mod ?c) \<noteq> nat (q_front q)" if "Suc i < ?n" for i
  proof
    assume e: "nat ((q_front q + int (Suc i)) mod ?c) = nat (q_front q)"
    have "(q_front q + int (Suc i)) mod ?c = (q_front q + int 0) mod ?c"
      using e c f by (simp add: nat_eq_iff)
    moreover have "Suc i < nat ?c" "0 < nat ?c" using that le sz by linarith+
    ultimately have "Suc i = 0"
      using wrap_inj [OF c, of "Suc i" 0 "q_front q"] by blast
    then show False by simp
  qed
  have "slots q' ! i = tl (slots q) ! i" if "i < ?n - 1" for i
  proof -
    have "slots q' ! i = (q_buf q)[nat (q_front q) := None] ! nat ((q_front q + int (Suc i)) mod ?c)"
      using that sz by (simp add: slots_def q'_def sh nat_diff_distrib del: of_nat_Suc)
    also have "\<dots> = q_buf q ! nat ((q_front q + int (Suc i)) mod ?c)"
    proof -
      have "Suc i < ?n" using that by linarith
      from other [OF this] show ?thesis by (simp del: of_nat_Suc)
    qed
    also have "\<dots> = tl (slots q) ! i"
      using that by (simp add: nth_tl slots_nth del: of_nat_Suc)
    finally show ?thesis .
  qed
  moreover have "length (slots q') = ?n - 1"
    using sz by (simp add: q'_def nat_diff_distrib)
  ultimately show s: "slots q' = tl (slots q)"
    by (intro nth_equalityI) auto
  have "list_all (\<lambda>x. x \<noteq> None) (tl (slots q))"
    using assms(1) by (cases "slots q") (auto simp: q_wf_def)
  then show "q_wf q'"
    using c f sz le len s by (simp add: q_wf_def q'_def)
qed

lemma head_update_wf:
  fixes q :: QueueRR and t :: Task
  assumes "q_wf q" "q_size q \<noteq> 0"
  defines "q' \<equiv> q\<lparr>q_buf := (q_buf q)[nat (q_front q) := Some t]\<rparr>"
  shows "list_set (q_buf q) (q_front q) (Some t) = Inr ((q_buf q)[nat (q_front q) := Some t])"
    and "q_wf q'" and "slots q' = Some t # tl (slots q)"
proof -
  let ?c = "capacity q" and ?n = "nat (q_size q)"
  have c: "0 < ?c" and len: "length (q_buf q) = nat ?c" and sz: "0 < q_size q"
    and f: "0 \<le> q_front q" "q_front q < ?c" and le: "q_size q \<le> ?c"
    using assms(1,2) by (auto simp: q_wf_def)
  show "list_set (q_buf q) (q_front q) (Some t) = Inr ((q_buf q)[nat (q_front q) := Some t])"
    using f len by (simp add: list_set_in_range)
  have other: "nat ((q_front q + int i) mod ?c) \<noteq> nat (q_front q)" if "i < ?n" "i \<noteq> 0" for i
  proof
    assume e: "nat ((q_front q + int i) mod ?c) = nat (q_front q)"
    have "(q_front q + int i) mod ?c = (q_front q + int 0) mod ?c"
      using e c f by (simp add: nat_eq_iff)
    moreover have "i < nat ?c" "0 < nat ?c" using that le sz by linarith+
    ultimately have "i = 0"
      using wrap_inj [OF c, of i 0 "q_front q"] by blast
    with that show False by simp
  qed
  have "slots q' ! i = (Some t # tl (slots q)) ! i" if "i < ?n" for i
  proof (cases i)
    case 0
    then show ?thesis using that f len by (simp add: slots_def q'_def)
  next
    case (Suc j)
    have "slots q' ! i = (q_buf q)[nat (q_front q) := Some t] ! nat ((q_front q + int i) mod ?c)"
      using that by (simp add: slots_def q'_def)
    also have "\<dots> = q_buf q ! nat ((q_front q + int i) mod ?c)"
      using other [of i] that Suc by simp
    also have "\<dots> = (Some t # tl (slots q)) ! i"
      using that Suc by (simp add: nth_tl slots_nth del: of_nat_Suc)
    finally show ?thesis .
  qed
  moreover have "length (slots q') = ?n" "length (Some t # tl (slots q)) = ?n"
    using sz by (simp_all add: q'_def)
  ultimately show s: "slots q' = Some t # tl (slots q)"
    by (intro nth_equalityI) (simp_all del: slots_length)
  have "list_all (\<lambda>x. x \<noteq> None) (tl (slots q))"
    using assms(1) by (cases "slots q") (auto simp: q_wf_def)
  then show "q_wf q'"
    using c f sz le len s by (simp add: q_wf_def q'_def)
qed

lemma q_tasks_slots:
  "list_all (\<lambda>x. x \<noteq> None) (slots q) \<Longrightarrow> slots q = map Some (q_tasks q)"
  by (auto simp: q_tasks_def list_all_iff intro!: nth_equalityI)

lemma work_turn_steps:
  assumes "q_peek q = Inr (Some t)"
    and "list_set (q_buf q) (q_front q)
           (Some (t\<lparr>remaining := remaining t - min quantum (remaining t)\<rparr>)) = Inr b"
    and "q_dequeue (q\<lparr>q_buf := b\<rparr>) = Inr (Some t', q2)"
    and "q_enqueue q2 t' = Inr (True, q3)"
  shows "work_turn quantum s qid q =
           (if remaining t - min quantum (remaining t) = 0
            then Inr (finish_log (s\<lparr>time := time s + min quantum (remaining t)\<rparr>) qid t',
                      s\<lparr>time := time s + min quantum (remaining t),
                        queues := dict_set (queues s) qid q2\<rparr>)
            else Inr (work_log (s\<lparr>time := time s + min quantum (remaining t)\<rparr>) qid t',
                      s\<lparr>time := time s + min quantum (remaining t),
                        queues := dict_set (queues s) qid q3\<rparr>))"
  using assms
  by (simp add: work_turn_def Let_def dict_set_def finish_log_def work_log_def)

text \<open>
  The work branch on a well-formed, non-empty queue: every call returns, the head task
  loses \<open>min quantum remaining\<close>, and it is removed when nothing remains, moved to the
  tail otherwise.
\<close>

lemma work_turn_wf:
  fixes q :: QueueRR and s :: Scheduler and quantum :: int
  assumes "q_wf q" "q_size q \<noteq> 0"
  defines "t \<equiv> hd (q_tasks q)"
  defines "w \<equiv> min quantum (remaining t)"
  defines "t' \<equiv> t\<lparr>remaining := remaining t - w\<rparr>"
  shows "\<exists>q'. q_wf q' \<and> capacity q' = capacity q \<and>
           q_tasks q' = (if remaining t' = 0 then tl (q_tasks q) else tl (q_tasks q) @ [t']) \<and>
           work_turn quantum s qid q =
             Inr (if remaining t' = 0
                  then finish_log (s\<lparr>time := time s + w\<rparr>) qid t'
                  else work_log (s\<lparr>time := time s + w\<rparr>) qid t',
                  s\<lparr>time := time s + w, queues := dict_set (queues s) qid q'\<rparr>)"
proof -
  define q1 where "q1 = q\<lparr>q_buf := (q_buf q)[nat (q_front q) := Some t']\<rparr>"
  define q2 where "q2 = q1\<lparr>q_buf := (q_buf q1)[nat (q_front q1) := None],
                    q_front := (q_front q1 + 1) mod capacity q1, q_size := q_size q1 - 1\<rparr>"
  define q3 where "q3 = q2\<lparr>q_buf := (q_buf q2)[nat ((q_front q2 + q_size q2) mod capacity q2) := Some t'],
                    q_size := q_size q2 + 1\<rparr>"
  have pk: "q_peek q = Inr (Some t)"
    using q_peek_wf [OF assms(1,2)] by (simp add: t_def)
  have ls: "list_set (q_buf q) (q_front q) (Some t') = Inr (q_buf q1)"
    and wf1: "q_wf q1" and sl1: "slots q1 = Some t' # tl (slots q)"
    using head_update_wf [OF assms(1,2), of t'] by (simp_all add: q1_def)
  have ne1: "q_size q1 \<noteq> 0" using assms(2) by (simp add: q1_def)
  have hd1: "hd (q_tasks q1) = t'" by (simp add: q_tasks_def sl1)
  have dq: "q_dequeue q1 = Inr (Some t', q2)"
    and wf2: "q_wf q2" and sl2: "slots q2 = tl (slots q)"
    using q_dequeue_wf [OF wf1 ne1] hd1 sl1 by (simp_all add: q2_def)
  have room: "q_size q2 < capacity q2"
    using assms(1) by (simp add: q2_def q1_def q_wf_def)
  have enq: "q_enqueue q2 t' = Inr (True, q3)"
    and wf3: "q_wf q3" and sl3: "slots q3 = tl (slots q) @ [Some t']"
    using q_enqueue_wf [OF wf2 room, of t'] sl2 by (simp_all add: q3_def)
  have q1eq: "q\<lparr>q_buf := q_buf q1\<rparr> = q1" by (simp add: q1_def)
  have tk2: "q_tasks q2 = tl (q_tasks q)" by (simp add: q_tasks_def sl2 map_tl)
  have tk3: "q_tasks q3 = tl (q_tasks q) @ [t']" by (simp add: q_tasks_def sl3 map_tl)
  have c2: "capacity q2 = capacity q" by (simp add: q2_def q1_def)
  have c3: "capacity q3 = capacity q" by (simp add: q3_def q2_def q1_def)
  have rt: "remaining t' = remaining t - w" by (simp add: t'_def)
  note st = work_turn_steps [of q t quantum "q_buf q1" t' q2 q3 s qid,
      folded w_def, folded t'_def, unfolded q1eq, OF pk ls dq enq, folded rt]
  show ?thesis
  proof (cases "remaining t' = 0")
    case True
    with st wf2 tk2 c2 show ?thesis by (intro exI [of _ q2]) (simp only: if_True simp_thms)
  next
    case False
    with st wf3 tk3 c3 show ?thesis by (intro exI [of _ q3]) (simp only: if_False simp_thms)
  qed
qed

section \<open>The invariant and the snapshot\<close>

lemma dict_get_Some: "map_of d k = Some v \<Longrightarrow> dict_get d k = Inr v"
  by (simp add: dict_get_def)

lemma map_of_dict_set: "map_of (dict_set d k v) = (map_of d)(k \<mapsto> v)"
  by (simp add: dict_set_def update_conv')

lemma keys_dict_set: "set (map fst (dict_set d k v)) = insert k (set (map fst d))"
  using dom_update [of k v d] by (simp add: dict_set_def)

lemma distinct_dict_set: "distinct (map fst d) \<Longrightarrow> distinct (map fst (dict_set d k v))"
  by (simp add: dict_set_def distinct_update)

lemma set_dict_set: "set (dict_set d k v) \<subseteq> insert (k, v) (set d)"
  by (induction d) (auto simp: dict_set_def)

lemma list_all_dict_set:
  "list_all P d \<Longrightarrow> P (k, v) \<Longrightarrow> list_all P (dict_set d k v)"
  using set_dict_set [of d k v] by (auto simp: list_all_iff)

lemma dict_has_keys: "dict_has d k \<longleftrightarrow> k \<in> set (map fst d)"
  by (simp add: dict_has_def map_of_eq_None_iff)

lemma sched_inv_queue:
  assumes "sched_inv s" "qid \<in> set (queue_order s)"
  obtains q where "map_of (queues s) qid = Some q" "q_wf q" "tasks_pos q"
proof -
  from assms have "qid \<in> fst ` set (queues s)" by (simp add: sched_inv_def)
  then obtain q where q: "map_of (queues s) qid = Some q"
    by (metis domD dom_map_of_conv_image_fst)
  then have "(qid, q) \<in> set (queues s)" by (rule map_of_SomeD)
  with assms(1) have "q_wf q \<and> tasks_pos q" by (auto simp: sched_inv_def list_all_iff)
  with q that show thesis by blast
qed

lemma sched_inv_map_of:
  assumes "sched_inv s" "map_of (queues s) qid = Some q"
  shows "q_wf q" "tasks_pos q" "qid \<in> set (queue_order s)"
proof -
  have m: "(qid, q) \<in> set (queues s)" using assms(2) by (rule map_of_SomeD)
  with assms(1) show "q_wf q" "tasks_pos q" by (auto simp: sched_inv_def list_all_iff)
  from m have "qid \<in> fst ` set (queues s)" by force
  with assms(1) show "qid \<in> set (queue_order s)" by (simp add: sched_inv_def)
qed

lemma sched_inv_cur:
  assumes "sched_inv s" "queue_order s \<noteq> []"
  shows "list_get (queue_order s) (rr_index s) = Inr (cur s)" and "cur s \<in> set (queue_order s)"
    and "0 \<le> rr_index s" and "rr_index s < int (length (queue_order s))"
proof -
  show r: "0 \<le> rr_index s" "rr_index s < int (length (queue_order s))"
    using assms by (auto simp: sched_inv_def)
  then show "list_get (queue_order s) (rr_index s) = Inr (cur s)"
    by (simp add: list_get_in_range cur_def)
  show "cur s \<in> set (queue_order s)"
    using r by (simp add: cur_def)
qed

text \<open>The snapshot of a state that satisfies the invariant returns and changes nothing.\<close>

lemma next_queue_inv:
  assumes "sched_inv s"
  shows "next_queue s = Inr (if queue_order s = [] then None else Some (cur s), s)"
proof (cases "queue_order s = []")
  case True
  then show ?thesis by (simp add: next_queue_def)
next
  case False
  note c = sched_inv_cur [OF assms False]
  show ?thesis using False c(1,3,4) by (simp add: next_queue_def Let_def)
qed

lemma display_queues_inv:
  assumes "sched_inv s" "set ids \<subseteq> set (queue_order s)"
  shows "\<exists>ls. display_queues s ids = Inr ls \<and> length ls = length ids"
  using assms(2)
proof (induction ids)
  case Nil
  then show ?case by simp
next
  case (Cons qid ids)
  then obtain ls where ls: "display_queues s ids = Inr ls" "length ls = length ids" by auto
  from Cons.prems have "qid \<in> set (queue_order s)" by simp
  with assms(1) obtain q where q: "map_of (queues s) qid = Some q" "q_wf q"
    by (rule sched_inv_queue)
  then have "\<exists>l. display_queue s qid = Inr l"
    by (simp add: display_queue_def dict_get_Some tasks_list_wf Let_def)
  with ls show ?case by auto
qed

lemma display_inv:
  assumes "sched_inv s"
  shows "\<exists>ls. display s =
           Inr (display_head s (if queue_order s = [] then None else Some (cur s))
                  # display_menu s # ls, s) \<and> length ls = length (queue_order s)"
proof -
  obtain ls where "display_queues s (queue_order s) = Inr ls" "length ls = length (queue_order s)"
    using display_queues_inv [OF assms, of "queue_order s"] by auto
  then show ?thesis
    by (simp add: display_def next_queue_inv [OF assms])
qed

subsection \<open>Updates that keep the invariant\<close>

lemma sched_inv_time [simp]: "sched_inv (s\<lparr>time := t\<rparr>) = sched_inv s"
  by (simp add: sched_inv_def)

lemma sched_inv_advance:
  assumes "sched_inv s" "queue_order s \<noteq> []"
  shows "sched_inv (advance s (int (length (queue_order s))))"
  using assms by (simp add: sched_inv_def advance_def)

lemma sched_inv_flag:
  assumes "sched_inv s" "qid \<in> set (queue_order s)"
  shows "sched_inv (s\<lparr>skip_flags := dict_set (skip_flags s) qid v\<rparr>)"
  using assms
  by (auto simp: sched_inv_def distinct_dict_set keys_dict_set simp del: set_map)

lemma sched_inv_counter:
  assumes "sched_inv s" "qid \<in> set (queue_order s)"
  shows "sched_inv (s\<lparr>id_counters := dict_set (id_counters s) qid v\<rparr>)"
  using assms
  by (auto simp: sched_inv_def keys_dict_set simp del: set_map)

lemma sched_inv_queue_upd:
  assumes "sched_inv s" "qid \<in> set (queue_order s)" "q_wf q'" "tasks_pos q'"
  shows "sched_inv (s\<lparr>queues := dict_set (queues s) qid q'\<rparr>)"
  using assms
  by (auto simp: sched_inv_def distinct_dict_set keys_dict_set list_all_dict_set
      simp del: set_map)

lemma sched_inv_init: "sched_inv Scheduler_init"
  by (simp add: sched_inv_def Scheduler_init_def)

lemma tasks_pos_empty: "q_size q = 0 \<Longrightarrow> tasks_pos q"
  by (simp add: tasks_pos_def q_tasks_def slots_def)

lemma create_queue_inv:
  assumes "sched_inv s" "create_queue s qid cap = Inr (logs, s')"
  shows "sched_inv s'"
proof -
  from assms(2) obtain q where q: "QueueRR_init qid cap = Inr q"
    and s': "s' = s\<lparr>queues := dict_set (queues s) qid q,
                    queue_order := queue_order s @ [qid],
                    id_counters := dict_set (id_counters s) qid 0,
                    skip_flags := dict_set (skip_flags s) qid False\<rparr>"
    by (auto simp: create_queue_def bindE_Inr_iff Let_def)
  from q have "0 < cap" by (rule QueueRR_init_Inr)
  from QueueRR_init_wf(2) [OF this q] have "q_wf q" "tasks_pos q"
    by (simp_all add: tasks_pos_empty)
  with assms(1) show ?thesis
    unfolding s'
    by (auto simp: sched_inv_def distinct_dict_set keys_dict_set list_all_dict_set
        simp del: set_map)
qed

lemma mark_skip_inv:
  assumes "sched_inv s"
  shows "sched_inv (snd (mark_skip s qid))"
proof (cases "dict_has (skip_flags s) qid")
  case True
  with assms have "qid \<in> set (queue_order s)" by (simp add: dict_has_keys sched_inv_def)
  with assms True show ?thesis by (simp add: mark_skip_def sched_inv_flag)
next
  case False
  with assms show ?thesis by (simp add: mark_skip_def)
qed

lemma menu_positive: "map_of REQUIRED_MENU item = Some b \<Longrightarrow> 0 < b"
  by (simp add: REQUIRED_MENU_def split: if_splits)

subsection \<open>The four outcomes of an admission\<close>

lemma enqueue_unknown_item:
  assumes "\<not> dict_has (menu s) item"
  shows "enqueue s qid item =
           Inr ([reject_log s qid ''unknown_item''],
                [''Sorry, we don'' @ [CHR 0x27] @ ''t serve that.''], s)"
  using assms by (simp add: enqueue_def)

lemma enqueue_unknown_queue:
  assumes "dict_has (menu s) item" "\<not> dict_has (queues s) qid"
  shows "enqueue s qid item = Inr ([reject_log s qid ''unknown_queue''], [], s)"
  using assms by (simp add: enqueue_def)

lemma enqueue_full:
  assumes "dict_has (menu s) item" "map_of (queues s) qid = Some q"
    "map_of (id_counters s) qid = Some c" "capacity q \<le> q_size q"
  shows "enqueue s qid item =
           Inr ([reject_log s qid ''full''], [''Sorry, we'' @ [CHR 0x27] @ ''re at capacity.''],
                s\<lparr>id_counters := dict_set (id_counters s) qid (c + 1)\<rparr>)"
proof -
  obtain b where b: "map_of (menu s) item = Some b"
    using assms(1) by (auto simp: dict_has_def)
  have same: "dict_set (queues s) qid q = queues s"
    using assms(2) by (simp add: dict_set_def update_triv)
  show ?thesis
    using assms b
    by (simp add: enqueue_def dict_has_def dict_get_Some map_of_dict_set q_enqueue_full
        same reject_log_def Let_def)
qed

lemma enqueue_admit:
  assumes "map_of (menu s) item = Some b" "map_of (queues s) qid = Some q"
    "map_of (id_counters s) qid = Some c" "q_wf q" "q_size q < capacity q"
  defines "task \<equiv> \<lparr>task_id = qid @ ''-'' @ fmt_03d (c + 1), remaining = b\<rparr>"
  shows "\<exists>q'. q_wf q' \<and> capacity q' = capacity q \<and> q_size q' = q_size q + 1 \<and>
           q_tasks q' = q_tasks q @ [task] \<and>
           enqueue s qid item =
             Inr ([''time='' @ str_int (time s) @ '' event=enqueue queue='' @ qid
                    @ '' task='' @ task_id task @ '' remaining='' @ str_int b], [],
                  s\<lparr>id_counters := dict_set (id_counters s) qid (c + 1),
                    queues := dict_set (queues s) qid q'\<rparr>)"
proof -
  define q' where "q' = q\<lparr>q_buf := (q_buf q)[nat ((q_front q + q_size q) mod capacity q) := Some task],
                    q_size := q_size q + 1\<rparr>"
  have e: "q_enqueue q task = Inr (True, q')" and wf: "q_wf q'"
    and sl: "slots q' = slots q @ [Some task]"
    using q_enqueue_wf [OF assms(4,5), of task] by (simp_all add: q'_def)
  have "enqueue s qid item =
             Inr ([''time='' @ str_int (time s) @ '' event=enqueue queue='' @ qid
                    @ '' task='' @ task_id task @ '' remaining='' @ str_int b], [],
                  s\<lparr>id_counters := dict_set (id_counters s) qid (c + 1),
                    queues := dict_set (queues s) qid q'\<rparr>)"
    using assms(1-3) e
    by (simp add: enqueue_def dict_has_def dict_get_Some map_of_dict_set Let_def task_def)
  moreover have "q_tasks q' = q_tasks q @ [task]" by (simp add: q_tasks_def sl)
  moreover have "capacity q' = capacity q" "q_size q' = q_size q + 1" by (simp_all add: q'_def)
  ultimately show ?thesis using wf by blast
qed

lemma enqueue_inv:
  assumes "sched_inv s"
  shows "\<exists>logs printed s'. enqueue s qid item = Inr (logs, printed, s') \<and> sched_inv s' \<and>
           time s' = time s \<and> length logs = 1"
proof (cases "dict_has (menu s) item")
  case False
  with assms show ?thesis by (simp add: enqueue_unknown_item)
next
  case item: True
  then obtain b where b: "map_of (menu s) item = Some b" by (auto simp: dict_has_def)
  with assms have bpos: "0 < b" by (auto simp: sched_inv_def intro: menu_positive)
  show ?thesis
  proof (cases "dict_has (queues s) qid")
    case False
    with assms item show ?thesis by (simp add: enqueue_unknown_queue)
  next
    case True
    then obtain q where q: "map_of (queues s) qid = Some q" by (auto simp: dict_has_def)
    note qf = sched_inv_map_of [OF assms q]
    from assms qf(3) have "qid \<in> fst ` set (id_counters s)" by (simp add: sched_inv_def)
    then obtain c where c: "map_of (id_counters s) qid = Some c"
      by (metis domD dom_map_of_conv_image_fst)
    have i1: "sched_inv (s\<lparr>id_counters := dict_set (id_counters s) qid (c + 1)\<rparr>)"
      using assms qf(3) by (rule sched_inv_counter)
    show ?thesis
    proof (cases "capacity q \<le> q_size q")
      case True
      show ?thesis using enqueue_full [OF item q c True] i1 by simp
    next
      case False
      then have room: "q_size q < capacity q" by simp
      let ?task = "\<lparr>task_id = qid @ ''-'' @ fmt_03d (c + 1), remaining = b\<rparr>"
      from enqueue_admit [OF b q c qf(1) room] obtain q' where
        q': "q_wf q'" "q_tasks q' = q_tasks q @ [?task]" and
        e: "enqueue s qid item =
             Inr ([''time='' @ str_int (time s) @ '' event=enqueue queue='' @ qid
                    @ '' task='' @ task_id ?task @ '' remaining='' @ str_int b], [],
                  s\<lparr>id_counters := dict_set (id_counters s) qid (c + 1),
                    queues := dict_set (queues s) qid q'\<rparr>)"
        by blast
      have "tasks_pos q'" using qf(2) q'(2) bpos by (simp add: tasks_pos_def)
      then have "sched_inv (s\<lparr>id_counters := dict_set (id_counters s) qid (c + 1),
                    queues := dict_set (queues s) qid q'\<rparr>)"
        using sched_inv_queue_upd [OF i1 _ q'(1), of qid] qf(3) by simp
      with e show ?thesis by simp
    qed
  qed
qed

section \<open>One turn\<close>

lemma turn_unfold:
  assumes "sched_inv s" "queue_order s \<noteq> []" "map_of (queues s) (cur s) = Some q"
  shows "turn quantum s =
     (if skip_flag_get s (cur s) then
        bindE (display (s\<lparr>skip_flags := dict_set (skip_flags s) (cur s) False\<rparr>)) (\<lambda>(lines, s2).
        Inr (run_log s (cur s) # lines, advance s2 (int (length (queue_order s)))))
      else if q_len q = 0 then
        bindE (display s) (\<lambda>(lines, s2).
        Inr (run_log s (cur s) # lines, advance s2 (int (length (queue_order s)))))
      else
        bindE (work_turn quantum s (cur s) q) (\<lambda>(event, s2).
        bindE (display (advance s2 (int (length (queue_order s))))) (\<lambda>(lines, s3).
        Inr (run_log s (cur s) # event # lines, s3))))"
proof -
  note c = sched_inv_cur [OF assms(1,2)]
  show ?thesis
    using c(1,3,4) assms(3)
    by (simp add: turn_def Let_def dict_get_Some)
qed

lemma turn_skip:
  assumes "sched_inv s" "queue_order s \<noteq> []" "skip_flag_get s (cur s)"
  defines "s1 \<equiv> s\<lparr>skip_flags := dict_set (skip_flags s) (cur s) False\<rparr>"
  shows "\<exists>ls. display s1 = Inr (display_head s1 (Some (cur s)) # display_menu s1 # ls, s1) \<and>
           turn quantum s =
             Inr (run_log s (cur s) # display_head s1 (Some (cur s)) # display_menu s1 # ls,
                  advance s1 (int (length (queue_order s))))"
    and "sched_inv (advance s1 (int (length (queue_order s))))"
proof -
  note c = sched_inv_cur [OF assms(1,2)]
  obtain q where q: "map_of (queues s) (cur s) = Some q"
    using sched_inv_queue [OF assms(1) c(2)] by blast
  have i1: "sched_inv s1" unfolding s1_def using assms(1) c(2) by (rule sched_inv_flag)
  have o1: "queue_order s1 = queue_order s" "cur s1 = cur s" by (simp_all add: s1_def cur_def)
  from display_inv [OF i1] obtain ls where
    d: "display s1 = Inr (display_head s1 (Some (cur s)) # display_menu s1 # ls, s1)"
    using assms(2) by (auto simp: o1)
  have "turn quantum s =
             Inr (run_log s (cur s) # display_head s1 (Some (cur s)) # display_menu s1 # ls,
                  advance s1 (int (length (queue_order s))))"
    using assms(3) d by (simp add: turn_unfold [OF assms(1,2) q] s1_def [symmetric])
  with d show "\<exists>ls. display s1 = Inr (display_head s1 (Some (cur s)) # display_menu s1 # ls, s1) \<and>
           turn quantum s =
             Inr (run_log s (cur s) # display_head s1 (Some (cur s)) # display_menu s1 # ls,
                  advance s1 (int (length (queue_order s))))"
    by blast
  show "sched_inv (advance s1 (int (length (queue_order s))))"
    using sched_inv_advance [OF i1] assms(2) by (simp add: o1)
qed

lemma turn_empty:
  assumes "sched_inv s" "queue_order s \<noteq> []" "\<not> skip_flag_get s (cur s)"
    "map_of (queues s) (cur s) = Some q" "q_size q = 0"
  shows "\<exists>ls. display s = Inr (display_head s (Some (cur s)) # display_menu s # ls, s) \<and>
           turn quantum s =
             Inr (run_log s (cur s) # display_head s (Some (cur s)) # display_menu s # ls,
                  advance s (int (length (queue_order s))))"
proof -
  from display_inv [OF assms(1)] obtain ls where
    d: "display s = Inr (display_head s (Some (cur s)) # display_menu s # ls, s)"
    using assms(2) by auto
  then show ?thesis
    using assms(3,5) by (simp add: turn_unfold [OF assms(1,2,4)] q_len_def)
qed

lemma tasks_pos_work:
  assumes "tasks_pos q" "q_size q \<noteq> 0" "q_wf q"
    "q_tasks q' = (if r = 0 then tl (q_tasks q) else tl (q_tasks q) @ [hd (q_tasks q)\<lparr>remaining := r\<rparr>])"
    "r = remaining (hd (q_tasks q)) - min quantum (remaining (hd (q_tasks q)))"
  shows "tasks_pos q'"
proof -
  have "0 < nat (q_size q)" using assms(2,3) by (simp add: q_wf_def)
  then have "length (q_tasks q) \<noteq> 0" by simp
  then obtain t ts where ts: "q_tasks q = t # ts" by (cases "q_tasks q") simp_all
  with assms(1) have p: "0 < remaining t" and rest: "list_all (\<lambda>t. 0 < remaining t) ts"
    by (simp_all add: tasks_pos_def)
  have r: "r = remaining t - min quantum (remaining t)" using assms(5) ts by simp
  have nn: "0 \<le> r" unfolding r by linarith
  show ?thesis
  proof (cases "r = 0")
    case True
    with assms(4) ts rest show ?thesis by (simp add: tasks_pos_def)
  next
    case False
    with nn have "0 < r" by simp
    with False assms(4) ts rest show ?thesis by (simp add: tasks_pos_def)
  qed
qed

lemma turn_work:
  fixes s :: Scheduler and quantum :: int
  assumes "sched_inv s" "queue_order s \<noteq> []" "\<not> skip_flag_get s (cur s)"
    "map_of (queues s) (cur s) = Some q" "q_size q \<noteq> 0"
  defines "t \<equiv> hd (q_tasks q)"
  defines "w \<equiv> min quantum (remaining t)"
  defines "t' \<equiv> t\<lparr>remaining := remaining t - w\<rparr>"
  shows "\<exists>q' s' ls. q_wf q' \<and> capacity q' = capacity q \<and>
           q_tasks q' = (if remaining t' = 0 then tl (q_tasks q) else tl (q_tasks q) @ [t']) \<and>
           s' = advance (s\<lparr>time := time s + w, queues := dict_set (queues s) (cur s) q'\<rparr>)
                  (int (length (queue_order s))) \<and>
           sched_inv s' \<and>
           display s' = Inr (display_head s' (Some (cur s')) # display_menu s' # ls, s') \<and>
           turn quantum s =
             Inr (run_log s (cur s)
                    # (if remaining t' = 0 then finish_log s' (cur s) t' else work_log s' (cur s) t')
                    # display_head s' (Some (cur s')) # display_menu s' # ls, s')"
proof -
  note c = sched_inv_cur [OF assms(1,2)]
  note qf = sched_inv_map_of [OF assms(1,4)]
  let ?n = "int (length (queue_order s))"
  from work_turn_wf [OF qf(1) assms(5), of quantum s "cur s"] obtain q' where
    wf': "q_wf q'" and cap: "capacity q' = capacity q"
    and tk: "q_tasks q' = (if remaining t' = 0 then tl (q_tasks q) else tl (q_tasks q) @ [t'])"
    and wt: "work_turn quantum s (cur s) q =
             Inr (if remaining t' = 0
                  then finish_log (s\<lparr>time := time s + w\<rparr>) (cur s) t'
                  else work_log (s\<lparr>time := time s + w\<rparr>) (cur s) t',
                  s\<lparr>time := time s + w, queues := dict_set (queues s) (cur s) q'\<rparr>)"
    unfolding t_def w_def t'_def by blast
  define s' where "s' = advance (s\<lparr>time := time s + w, queues := dict_set (queues s) (cur s) q'\<rparr>) ?n"
  have pos: "tasks_pos q'"
    using tasks_pos_work [OF qf(2) assms(5) qf(1), of q' "remaining t'" quantum] tk
    by (simp add: t'_def w_def t_def)
  have i2: "sched_inv (s\<lparr>time := time s + w, queues := dict_set (queues s) (cur s) q'\<rparr>)"
    using sched_inv_queue_upd [OF assms(1) c(2) wf' pos] by (simp add: sched_inv_def)
  have i': "sched_inv s'"
    unfolding s'_def using sched_inv_advance [OF i2] assms(2) by simp
  have o': "queue_order s' = queue_order s" "time s' = time s + w"
    by (simp_all add: s'_def advance_def)
  from display_inv [OF i'] obtain ls where
    d: "display s' = Inr (display_head s' (Some (cur s')) # display_menu s' # ls, s')"
    using assms(2) by (auto simp: o')
  have logs: "finish_log (s\<lparr>time := time s + w\<rparr>) (cur s) t' = finish_log s' (cur s) t'"
    "work_log (s\<lparr>time := time s + w\<rparr>) (cur s) t' = work_log s' (cur s) t'"
    by (simp_all add: finish_log_def work_log_def o')
  have "turn quantum s =
             Inr (run_log s (cur s)
                    # (if remaining t' = 0 then finish_log s' (cur s) t' else work_log s' (cur s) t')
                    # display_head s' (Some (cur s')) # display_menu s' # ls, s')"
    using assms(3,5) d
    by (simp add: turn_unfold [OF assms(1,2,4)] q_len_def wt s'_def [symmetric] logs
        del: if_split cong: if_cong)
  with wf' cap tk i' d show ?thesis unfolding s'_def by blast
qed

section \<open>Formatting, flags and fields across a turn\<close>

lemma digits_length:
  assumes "n < 1000"
  shows "length (digits n) \<le> 3"
proof -
  have a: "n div 10 < 100" "n div 10 div 10 < 10" using assms by auto
  have "length (digits (n div 10 div 10)) = 1"
    using a(2) by (subst digits.simps) simp
  then have "length (digits (n div 10)) \<le> 2"
    by (subst digits.simps) simp
  then show ?thesis
    by (subst digits.simps) simp
qed

lemma fmt_03d_nonneg:
  assumes "0 \<le> n"
  shows "fmt_03d n = replicate (3 - length (str_int n)) CHR ''0'' @ str_int n"
  using assms by (simp add: fmt_03d_def str_int_def Let_def)

lemma fmt_03d_length:
  assumes "0 \<le> n" "n < 1000"
  shows "length (fmt_03d n) = 3"
proof -
  have "length (digits (nat n)) \<le> 3" using assms by (intro digits_length) simp
  then show ?thesis using assms by (simp add: fmt_03d_def Let_def)
qed

lemma fmt_03d_1: "fmt_03d 1 = ''001''"
  by code_simp

lemma skip_flag_get_upd:
  "skip_flag_get (s\<lparr>skip_flags := dict_set (skip_flags s) k v\<rparr>) k' =
     (if k' = k then v else skip_flag_get s k')"
  by (simp add: skip_flag_get_def map_of_dict_set)

lemma skip_flag_get_advance [simp]: "skip_flag_get (advance s n) k = skip_flag_get s k"
  by (simp add: skip_flag_get_def advance_def)

lemma advance_fields [simp]:
  "queue_order (advance s n) = queue_order s" "id_counters (advance s n) = id_counters s"
  "menu (advance s n) = menu s" "rr_index (advance s n) = (rr_index s + 1) mod n"
  "time (advance s n) = time s" "queues (advance s n) = queues s"
  "skip_flags (advance s n) = skip_flags s"
  by (simp_all add: advance_def)

lemma skip_flag_get_fields [simp]:
  "skip_flag_get (s\<lparr>time := t, queues := qs\<rparr>) k = skip_flag_get s k"
  by (simp add: skip_flag_get_def)

lemma mark_skip_twice:
  "snd (mark_skip (snd (mark_skip s qid)) qid) = snd (mark_skip s qid)"
  by (simp add: mark_skip_def dict_has_def map_of_dict_set dict_set_def)

text \<open>
  What every turn from a state with the invariant does, whatever its branch: it returns,
  keeps the invariant, the order, the counters and the menu, moves the pointer by one
  position, and leaves no flag set that was clear; the flag of the visited queue is clear
  afterwards.
\<close>

lemma turn_total:
  assumes "sched_inv s" "queue_order s \<noteq> []"
  shows "\<exists>lines s'. turn quantum s = Inr (lines, s') \<and> sched_inv s' \<and>
           queue_order s' = queue_order s \<and> id_counters s' = id_counters s \<and>
           menu s' = menu s \<and>
           rr_index s' = (rr_index s + 1) mod int (length (queue_order s)) \<and>
           (\<forall>k. skip_flag_get s' k = (skip_flag_get s k \<and> k \<noteq> cur s))"
proof -
  note c = sched_inv_cur [OF assms]
  obtain q where q: "map_of (queues s) (cur s) = Some q"
    using sched_inv_queue [OF assms(1) c(2)] by blast
  let ?n = "int (length (queue_order s))"
  show ?thesis
  proof (cases "skip_flag_get s (cur s)")
    case True
    let ?s1 = "s\<lparr>skip_flags := dict_set (skip_flags s) (cur s) False\<rparr>"
    from turn_skip(1) [OF assms True, of quantum] obtain lines where
      t: "turn quantum s = Inr (lines, advance ?s1 ?n)"
      by blast
    have i: "sched_inv (advance ?s1 ?n)" by (rule turn_skip(2) [OF assms True])
    have "\<forall>k. skip_flag_get (advance ?s1 ?n) k = (skip_flag_get s k \<and> k \<noteq> cur s)"
      by (simp add: skip_flag_get_upd)
    with t i show ?thesis by (intro exI [of _ lines] exI [of _ "advance ?s1 ?n"]) simp

  next
    case False
    show ?thesis
    proof (cases "q_size q = 0")
      case True
      from turn_empty [OF assms False q True, of quantum] obtain lines where
        t: "turn quantum s = Inr (lines, advance s ?n)" by blast
      have "\<forall>k. skip_flag_get (advance s ?n) k = (skip_flag_get s k \<and> k \<noteq> cur s)"
        using False by auto
      with t sched_inv_advance [OF assms] show ?thesis
        by (intro exI [of _ lines] exI [of _ "advance s ?n"]) simp
    next
      case ne: False
      from turn_work [OF assms False q ne, of quantum] obtain q' s' lines where
        s': "s' = advance (s\<lparr>time := time s + min quantum (remaining (hd (q_tasks q))),
                    queues := dict_set (queues s) (cur s) q'\<rparr>) ?n"
        and i: "sched_inv s'" and t: "turn quantum s = Inr (lines, s')"
        by blast
      have "\<forall>k. skip_flag_get s' k = (skip_flag_get s k \<and> k \<noteq> cur s)"
        using False by (auto simp: s')
      moreover have "queue_order s' = queue_order s" "id_counters s' = id_counters s"
        "menu s' = menu s" "rr_index s' = (rr_index s + 1) mod ?n"
        by (simp_all add: s')
      ultimately show ?thesis using t i by blast
    qed
  qed
qed

lemma turns_total:
  assumes "sched_inv s" "queue_order s \<noteq> []"
  shows "\<exists>lines s'. turns quantum k s = Inr (lines, s') \<and> sched_inv s' \<and>
           queue_order s' = queue_order s \<and>
           (\<forall>x. skip_flag_get s' x \<longrightarrow> skip_flag_get s x)"
  using assms
proof (induction k arbitrary: s)
  case 0
  then show ?case by simp
next
  case (Suc k)
  from turn_total [OF Suc.prems, of quantum] obtain l1 s1 where
    t: "turn quantum s = Inr (l1, s1)" and i: "sched_inv s1"
    and o: "queue_order s1 = queue_order s"
    and f: "\<forall>x. skip_flag_get s1 x = (skip_flag_get s x \<and> x \<noteq> cur s)"
    by blast
  from Suc.IH [OF i] Suc.prems(2) o obtain l2 s2 where
    ts: "turns quantum k s1 = Inr (l2, s2)" and i2: "sched_inv s2"
    and o2: "queue_order s2 = queue_order s1"
    and f2: "\<forall>x. skip_flag_get s2 x \<longrightarrow> skip_flag_get s1 x"
    by auto
  show ?case using t ts i2 o o2 f f2 by auto
qed

section \<open>The loop\<close>

lemma all_empty_from_inv:
  assumes "sched_inv s" "set ids \<subseteq> set (queue_order s)"
  shows "all_empty_from s ids =
           Inr (\<forall>qid\<in>set ids. \<forall>q. map_of (queues s) qid = Some q \<longrightarrow> q_size q = 0)"
  using assms(2)
proof (induction ids)
  case Nil
  then show ?case by simp
next
  case (Cons qid ids)
  from Cons.prems have "qid \<in> set (queue_order s)" by simp
  with assms(1) obtain q where q: "map_of (queues s) qid = Some q"
    by (rule sched_inv_queue)
  from Cons have ih: "all_empty_from s ids =
           Inr (\<forall>qid\<in>set ids. \<forall>q. map_of (queues s) qid = Some q \<longrightarrow> q_size q = 0)"
    by simp
  show ?case using q ih by (simp add: dict_get_Some q_len_def)
qed

lemma all_clear_inv:
  assumes "sched_inv s"
  shows "all_clear s \<longleftrightarrow> (\<forall>qid\<in>set (queue_order s). \<not> skip_flag_get s qid)"
proof -
  have d: "distinct (map fst (skip_flags s))"
    and k: "set (map fst (skip_flags s)) = set (queue_order s)"
    using assms by (simp_all add: sched_inv_def)
  have m: "map_of (skip_flags s) x = Some v \<longleftrightarrow> (x, v) \<in> set (skip_flags s)" for x v
    using d by (rule map_of_eq_Some_iff)
  show ?thesis
  proof
    assume a: "all_clear s"
    show "\<forall>qid\<in>set (queue_order s). \<not> skip_flag_get s qid"
    proof
      fix qid assume "qid \<in> set (queue_order s)"
      show "\<not> skip_flag_get s qid"
      proof
        assume "skip_flag_get s qid"
        then have "map_of (skip_flags s) qid = Some True"
          by (auto simp: skip_flag_get_def split: option.splits)
        then have "(qid, True) \<in> set (skip_flags s)" by (simp add: m)
        with a show False by (auto simp: all_clear_def list_all_iff)
      qed
    qed
  next
    assume a: "\<forall>qid\<in>set (queue_order s). \<not> skip_flag_get s qid"
    show "all_clear s"
      unfolding all_clear_def list_all_iff
    proof (clarify)
      fix x v assume xv: "(x, v) \<in> set (skip_flags s)" and v
      then have "x \<in> set (queue_order s)" using k by force
      moreover from xv have "map_of (skip_flags s) x = Some v" by (simp add: m)
      ultimately show False using a \<open>v\<close> by (auto simp: skip_flag_get_def)
    qed
  qed
qed

lemma quiescent_inv:
  assumes "sched_inv s"
  shows "quiescent s = Inr (\<forall>qid\<in>set (queue_order s). idle s qid)"
proof -
  have "(\<forall>qid\<in>set (queue_order s). idle s qid) \<longleftrightarrow>
        (\<forall>qid\<in>set (queue_order s). \<forall>q. map_of (queues s) qid = Some q \<longrightarrow> q_size q = 0) \<and>
        (\<forall>qid\<in>set (queue_order s). \<not> skip_flag_get s qid)"
    by (auto simp: idle_def split: option.splits)
  then show ?thesis
    using all_empty_from_inv [OF assms, of "queue_order s"] all_clear_inv [OF assms]
    by (simp add: quiescent_def all_empty_def)
qed

text \<open>
  What the loop returns, when it returns: it has made \<open>k\<close> turns; with a step count,
  \<open>k\<close> is what was missing to the count; without one, \<open>k\<close> is the first positive number
  of turns after which the state is quiescent.
\<close>

lemma run_loop_sound_aux:
  assumes "run_loop quantum max_turns turns_done logs s = Some r"
  shows "sched_inv s \<longrightarrow> queue_order s \<noteq> [] \<longrightarrow>
         (\<exists>k lines s'. r = Inr (turns_done + int k, logs @ lines, s') \<and>
           turns quantum k s = Inr (lines, s') \<and> sched_inv s' \<and>
           queue_order s' = queue_order s \<and>
           (max_turns = None \<longrightarrow> 0 < k \<and> quiescent s' = Inr True \<and>
              (\<forall>j. 0 < j \<and> j < k \<longrightarrow>
                 (\<exists>lj sj. turns quantum j s = Inr (lj, sj) \<and> quiescent sj = Inr False))) \<and>
           (\<forall>m. max_turns = Some m \<longrightarrow> int k = max 0 (m - turns_done)))"
  using assms
proof (induct rule: run_loop.raw_induct [rotated, consumes 1, case_names step])
  case (step run_loop quantum max_turns turns_done logs s r)
  note IH = step(1) and eq = step(2)
  show ?case
  proof (intro impI)
  assume i: "sched_inv s" and ne: "queue_order s \<noteq> []"
  show "\<exists>k lines s'. r = Inr (turns_done + int k, logs @ lines, s') \<and>
           turns quantum k s = Inr (lines, s') \<and> sched_inv s' \<and>
           queue_order s' = queue_order s \<and>
           (max_turns = None \<longrightarrow> 0 < k \<and> quiescent s' = Inr True \<and>
              (\<forall>j. 0 < j \<and> j < k \<longrightarrow>
                 (\<exists>lj sj. turns quantum j s = Inr (lj, sj) \<and> quiescent sj = Inr False))) \<and>
           (\<forall>m. max_turns = Some m \<longrightarrow> int k = max 0 (m - turns_done))"
  proof (cases "case max_turns of None \<Rightarrow> False | Some m \<Rightarrow> m \<le> turns_done")
    case True
    then obtain m where m: "max_turns = Some m" "m \<le> turns_done"
      by (cases max_turns) auto
    from eq True have "r = Inr (turns_done, logs, s)" by simp
    then show ?thesis using m i
      by (intro exI [of _ 0] exI [of _ "[]"] exI [of _ s]) simp
  next
    case False
    from turn_total [OF i ne, of quantum] obtain l1 s1 where
      t: "turn quantum s = Inr (l1, s1)" and i1: "sched_inv s1"
      and o1: "queue_order s1 = queue_order s"
      by blast
    have ne1: "queue_order s1 \<noteq> []" using ne o1 by simp
    have one: "turns quantum (Suc 0) s = Inr (l1, s1)" using t by simp
    obtain b where qb: "quiescent s1 = Inr b" using quiescent_inv [OF i1] by blast
    have len: "length (queue_order s) \<noteq> 0" using ne by simp
    have eq': "(if max_turns = None \<and> b then Some (Inr (turns_done + 1, logs @ l1, s1))
               else run_loop quantum max_turns (turns_done + 1) (logs @ l1) s1) = Some r"
    proof (cases "max_turns = None")
      case True
      from eq show ?thesis
        unfolding if_not_P [OF False] if_not_P [OF len] t qb
        by (simp only: True sum.case prod.case if_True simp_thms qb)
    next
      case mf: False
      from eq show ?thesis
        unfolding if_not_P [OF False] if_not_P [OF len] t
        by (simp only: mf sum.case prod.case if_False simp_thms)
    qed
    show ?thesis
    proof (cases "max_turns = None \<and> b")
      case True
      with eq' have "r = Inr (turns_done + 1, logs @ l1, s1)" by simp
      then show ?thesis using True one i1 o1 qb
        by (intro exI [of _ "Suc 0"] exI [of _ l1] exI [of _ s1]) simp
    next
      case nb: False
      have rec: "run_loop quantum max_turns (turns_done + 1) (logs @ l1) s1 = Some r"
        using eq' nb by (simp only: if_False)
      from IH [OF rec] i1 ne1 obtain k lines s' where
        r: "r = Inr (turns_done + 1 + int k, (logs @ l1) @ lines, s')"
        and tk: "turns quantum k s1 = Inr (lines, s')" and i': "sched_inv s'"
        and o': "queue_order s' = queue_order s1"
        and none: "max_turns = None \<longrightarrow> 0 < k \<and> quiescent s' = Inr True \<and>
              (\<forall>j. 0 < j \<and> j < k \<longrightarrow>
                 (\<exists>lj sj. turns quantum j s1 = Inr (lj, sj) \<and> quiescent sj = Inr False))"
        and some: "\<forall>m. max_turns = Some m \<longrightarrow> int k = max 0 (m - (turns_done + 1))"
        by blast
      have tsk: "turns quantum (Suc k) s = Inr (l1 @ lines, s')" using t tk by simp
      have a: "max_turns = None \<longrightarrow> 0 < Suc k \<and> quiescent s' = Inr True \<and>
              (\<forall>j. 0 < j \<and> j < Suc k \<longrightarrow>
                 (\<exists>lj sj. turns quantum j s = Inr (lj, sj) \<and> quiescent sj = Inr False))"
      proof
        assume mn: "max_turns = None"
        with nb qb have q1: "quiescent s1 = Inr False" by simp
        have "\<exists>lj sj. turns quantum j s = Inr (lj, sj) \<and> quiescent sj = Inr False"
          if "0 < j" "j < Suc k" for j
        proof (cases j)
          case 0
          with that show ?thesis by simp
        next
          case (Suc j')
          show ?thesis
          proof (cases "j' = 0")
            case True
            with Suc one q1 show ?thesis by auto
          next
            case False
            with that Suc none mn obtain lj sj where
              "turns quantum j' s1 = Inr (lj, sj)" "quiescent sj = Inr False"
              by auto
            then show ?thesis using Suc t by auto
          qed
        qed
        with none mn show "0 < Suc k \<and> quiescent s' = Inr True \<and>
              (\<forall>j. 0 < j \<and> j < Suc k \<longrightarrow>
                 (\<exists>lj sj. turns quantum j s = Inr (lj, sj) \<and> quiescent sj = Inr False))"
          by blast
      qed
      have b: "\<forall>m. max_turns = Some m \<longrightarrow> int (Suc k) = max 0 (m - turns_done)"
      proof (intro allI impI)
        fix m assume m: "max_turns = Some m"
        with False have "turns_done < m" by simp
        moreover from some m have "int k = max 0 (m - (turns_done + 1))" by simp
        ultimately show "int (Suc k) = max 0 (m - turns_done)" by simp
      qed
      have "r = Inr (turns_done + int (Suc k), logs @ (l1 @ lines), s')"
        using r by simp
      with tsk i' o' o1 a b show ?thesis
        by (intro exI [of _ "Suc k"] exI [of _ "l1 @ lines"] exI [of _ s']) simp
    qed
  qed
  qed
qed

lemma run_loop_sound:
  assumes "run_loop quantum max_turns turns_done logs s = Some r"
    "sched_inv s" "queue_order s \<noteq> []"
  shows "\<exists>k lines s'. r = Inr (turns_done + int k, logs @ lines, s') \<and>
           turns quantum k s = Inr (lines, s') \<and> sched_inv s' \<and>
           queue_order s' = queue_order s \<and>
           (max_turns = None \<longrightarrow> 0 < k \<and> quiescent s' = Inr True \<and>
              (\<forall>j. 0 < j \<and> j < k \<longrightarrow>
                 (\<exists>lj sj. turns quantum j s = Inr (lj, sj) \<and> quiescent sj = Inr False))) \<and>
           (\<forall>m. max_turns = Some m \<longrightarrow> int k = max 0 (m - turns_done))"
  using run_loop_sound_aux [OF assms(1)] assms(2,3) by blast

text \<open>With a step count the loop returns, after the missing number of turns.\<close>

lemma run_loop_steps:
  assumes "sched_inv s" "queue_order s \<noteq> []"
  shows "\<exists>r. run_loop quantum (Some m) turns_done logs s = Some r"
  using assms
proof (induction "nat (m - turns_done)" arbitrary: turns_done logs s)
  case 0
  then have "m \<le> turns_done" by simp
  then show ?case by (subst run_loop.simps) simp
next
  case (Suc n)
  then have lt: "turns_done < m" by linarith
  from turn_total [OF Suc.prems, of quantum] obtain l1 s1 where
    t: "turn quantum s = Inr (l1, s1)" and i1: "sched_inv s1"
    and o1: "queue_order s1 = queue_order s"
    by blast
  have "n = nat (m - (turns_done + 1))" using Suc.hyps(2) by linarith
  from Suc.hyps(1) [OF this i1, of "logs @ l1"] Suc.prems(2) o1 obtain r where
    "run_loop quantum (Some m) (turns_done + 1) (logs @ l1) s1 = Some r" by auto
  then show ?case
    using lt t Suc.prems(2) by (subst run_loop.simps) simp
qed

section \<open>The clock and command sequences\<close>

lemma q_tasks_nonempty:
  assumes "q_wf q" "q_size q \<noteq> 0"
  shows "q_tasks q = hd (q_tasks q) # tl (q_tasks q)"
proof -
  have "0 < nat (q_size q)" using assms by (simp add: q_wf_def)
  then have "length (q_tasks q) \<noteq> 0" by simp
  then show ?thesis by (cases "q_tasks q") simp_all
qed

lemma work_amount_nonneg:
  assumes "sched_inv s" "0 \<le> quantum"
  shows "0 \<le> work_amount quantum s"
proof (cases "map_of (queues s) (cur s)")
  case None
  then show ?thesis by (simp add: work_amount_def)
next
  case (Some q)
  note qf = sched_inv_map_of [OF assms(1) Some]
  show ?thesis
  proof (cases "skip_flag_get s (cur s) \<or> q_len q = 0")
    case True
    then show ?thesis using Some by (auto simp: work_amount_def)
  next
    case False
    then have "q_size q \<noteq> 0" by (simp add: q_len_def)
    from q_tasks_nonempty [OF qf(1) this] have "hd (q_tasks q) \<in> set (q_tasks q)"
      by (metis list.set_intros(1))
    with qf(2) have "0 < remaining (hd (q_tasks q))"
      by (simp add: tasks_pos_def list_all_iff)
    then show ?thesis using Some False assms(2) by (simp add: work_amount_def)
  qed
qed

lemma turn_time:
  assumes "sched_inv s" "queue_order s \<noteq> []"
  shows "\<exists>lines s'. turn quantum s = Inr (lines, s') \<and>
           time s' = time s + work_amount quantum s"
proof -
  note c = sched_inv_cur [OF assms]
  obtain q where q: "map_of (queues s) (cur s) = Some q"
    using sched_inv_queue [OF assms(1) c(2)] by blast
  let ?n = "int (length (queue_order s))"
  show ?thesis
  proof (cases "skip_flag_get s (cur s)")
    case True
    from turn_skip(1) [OF assms True, of quantum] obtain lines where
      "turn quantum s =
         Inr (lines, advance (s\<lparr>skip_flags := dict_set (skip_flags s) (cur s) False\<rparr>) ?n)"
      by blast
    then show ?thesis using True q by (simp add: work_amount_def)
  next
    case False
    show ?thesis
    proof (cases "q_size q = 0")
      case True
      from turn_empty [OF assms False q True, of quantum] obtain lines where
        "turn quantum s = Inr (lines, advance s ?n)" by blast
      then show ?thesis using True q by (simp add: work_amount_def q_len_def)
    next
      case ne: False
      from turn_work [OF assms False q ne, of quantum] obtain q' s' lines where
        s': "s' = advance (s\<lparr>time := time s + min quantum (remaining (hd (q_tasks q))),
                    queues := dict_set (queues s) (cur s) q'\<rparr>) ?n"
        and t: "turn quantum s = Inr (lines, s')"
        by blast
      have "time s' = time s + work_amount quantum s"
        using False ne q by (simp add: s' work_amount_def q_len_def)
      with t show ?thesis by blast
    qed
  qed
qed

lemma turn_empty_order:
  assumes "queue_order s = []"
  shows "\<exists>e. turn quantum s = Inl e"
proof -
  have "list_get [] i = (Inl IndexError :: error + string)" for i
    by (simp add: list_get_def py_index_def)
  then show ?thesis using assms by (simp add: turn_def Let_def)
qed

lemma turns_time:
  assumes "sched_inv s" "0 \<le> quantum" "turns quantum k s = Inr (lines, s')"
  shows "time s \<le> time s'"
  using assms(1,3)
proof (induction k arbitrary: s lines)
  case 0
  then show ?case by simp
next
  case (Suc k)
  show ?case
  proof (cases "queue_order s = []")
    case True
    from turn_empty_order [OF this, of quantum] Suc.prems(2) show ?thesis by auto
  next
    case False
    from turn_total [OF Suc.prems(1) False, of quantum] obtain l1 s1 where
      t: "turn quantum s = Inr (l1, s1)" and i1: "sched_inv s1" by blast
    from turn_time [OF Suc.prems(1) False, of quantum] t
    have "time s1 = time s + work_amount quantum s" by simp
    then have a: "time s \<le> time s1"
      using work_amount_nonneg [OF Suc.prems(1) assms(2)] by simp
    from Suc.prems(2) t obtain l2 where "turns quantum k s1 = Inr (l2, s')"
      by (auto simp: bindE_Inr_iff)
    from Suc.IH [OF i1 this] a show ?thesis by simp
  qed
qed

lemma turns_inv:
  assumes "sched_inv s" "turns quantum k s = Inr (lines, s')"
  shows "sched_inv s'"
  using assms
proof (induction k arbitrary: s lines)
  case 0
  then show ?case by simp
next
  case (Suc k)
  show ?case
  proof (cases "queue_order s = []")
    case True
    from turn_empty_order [OF this, of quantum] Suc.prems(2) show ?thesis by auto
  next
    case False
    from turn_total [OF Suc.prems(1) False, of quantum] obtain l1 s1 where
      t: "turn quantum s = Inr (l1, s1)" and i1: "sched_inv s1" by blast
    from Suc.prems(2) t obtain l2 where "turns quantum k s1 = Inr (l2, s')"
      by (auto simp: bindE_Inr_iff)
    from Suc.IH [OF i1 this] show ?thesis .
  qed
qed

lemma run_start:
  assumes "sched_inv s" "queue_order s \<noteq> []"
    "\<not> (case steps of Some k \<Rightarrow> \<not> (1 \<le> k \<and> k \<le> int (length (queue_order s))) | None \<Rightarrow> False)"
  shows "run s quantum steps =
           (case run_loop quantum steps 0 [] s of
              None \<Rightarrow> None
            | Some (Inl e) \<Rightarrow> Some (Inl e)
            | Some (Inr (turns_done, logs, s')) \<Rightarrow> Some (Inr (logs, s')))"
proof -
  note c = sched_inv_cur [OF assms(1,2)]
  show ?thesis using assms(2,3) c(4) by (simp add: run_def Let_def)
qed

lemma run_inv:
  assumes "sched_inv s" "run s quantum steps = Some r"
  shows "\<exists>logs s'. r = Inr (logs, s') \<and> sched_inv s' \<and> (0 \<le> quantum \<longrightarrow> time s \<le> time s')"
proof (cases "queue_order s = []")
  case True
  with assms show ?thesis by (auto simp: run_def)
next
  case ne: False
  show ?thesis
  proof (cases "case steps of Some k \<Rightarrow> \<not> (1 \<le> k \<and> k \<le> int (length (queue_order s)))
                | None \<Rightarrow> False")
    case True
    with assms ne show ?thesis by (auto simp: run_def)
  next
    case False
    note st = run_start [OF assms(1) ne False, of quantum]
    from assms(2) st obtain r0 where r0: "run_loop quantum steps 0 [] s = Some r0"
      by (cases "run_loop quantum steps 0 [] s") auto
    from run_loop_sound [OF r0 assms(1) ne] obtain k lines s' where
      r: "r0 = Inr (0 + int k, [] @ lines, s')" and tk: "turns quantum k s = Inr (lines, s')"
      and i': "sched_inv s'"
      by blast
    have "r = Inr (lines, s')" using assms(2) st r0 r by simp
    moreover have "0 \<le> quantum \<longrightarrow> time s \<le> time s'"
      using turns_time [OF assms(1) _ tk] by simp
    ultimately show ?thesis using i' by blast
  qed
qed

lemma exec_inv:
  assumes "sched_inv s" "exec s c = Some (Inr (logs, s'))"
  shows "sched_inv s'" and "nonneg_quantum c \<Longrightarrow> time s \<le> time s'"
    and "(\<And>quantum steps. c \<noteq> RUN quantum steps) \<Longrightarrow> time s' = time s"
proof -
  have "sched_inv s' \<and> (nonneg_quantum c \<longrightarrow> time s \<le> time s') \<and>
        ((\<forall>quantum steps. c \<noteq> RUN quantum steps) \<longrightarrow> time s' = time s)"
  proof (cases c)
    case (CREATE qid cap)
    with assms(2) have cq: "create_queue s qid cap = Inr (logs, s')" by simp
    then have "time s' = time s"
      by (auto simp: create_queue_def bindE_Inr_iff Let_def)
    with create_queue_inv [OF assms(1) cq] show ?thesis by simp
  next
    case (ENQ qid item)
    from enqueue_inv [OF assms(1), of qid item] obtain l p s1 where
      e: "enqueue s qid item = Inr (l, p, s1)" and i: "sched_inv s1" and t: "time s1 = time s"
      by blast
    with assms(2) ENQ have "s' = s1" by simp
    with i t show ?thesis by simp
  next
    case (SKIP qid)
    with assms(2) have "mark_skip s qid = (logs, s')" by simp
    then have "s' = snd (mark_skip s qid)" by simp
    moreover have "time (snd (mark_skip s qid)) = time s" by (simp add: mark_skip_def)
    ultimately show ?thesis using mark_skip_inv [OF assms(1), of qid] by simp
  next
    case (RUN quantum steps)
    with assms(2) have "run s quantum steps = Some (Inr (logs, s'))" by simp
    from run_inv [OF assms(1) this] show ?thesis using RUN by (simp add: nonneg_quantum_def)
  next
    case DISPLAY
    from display_inv [OF assms(1)] obtain ls where "display s = Inr (ls, s)" by blast
    with assms DISPLAY show ?thesis by simp
  qed
  then show "sched_inv s'" and "nonneg_quantum c \<Longrightarrow> time s \<le> time s'"
    and "(\<And>quantum steps. c \<noteq> RUN quantum steps) \<Longrightarrow> time s' = time s"
    by blast+
qed

lemma exec_all_inv:
  assumes "sched_inv s" "exec_all s cs = Some (Inr s')"
  shows "sched_inv s' \<and> (list_all nonneg_quantum cs \<longrightarrow> time s \<le> time s')"
  using assms
proof (induction cs arbitrary: s)
  case Nil
  then show ?case by simp
next
  case (Cons c cs)
  from Cons.prems(2) obtain logs s1 where
    e: "exec s c = Some (Inr (logs, s1))" and r: "exec_all s1 cs = Some (Inr s')"
    by (auto split: option.splits sum.splits)
  note x = exec_inv [OF Cons.prems(1) e]
  from Cons.IH [OF x(1) r] x(2) show ?case by auto
qed

lemma reachable_inv:
  assumes "exec_all Scheduler_init cs = Some (Inr s)"
  shows "sched_inv s" and "list_all nonneg_quantum cs \<Longrightarrow> 0 \<le> time s"
  using exec_all_inv [OF sched_inv_init assms] by (simp_all add: Scheduler_init_def)

section \<open>The lines of a snapshot\<close>



lemma finish_not_work: "finish_log s qid t \<noteq> work_log s qid t'"
  by (simp add: finish_log_def work_log_def)

lemma dict_get_Inr: "dict_get d k = Inr v \<longleftrightarrow> map_of d k = Some v"
  by (simp add: dict_get_def split: option.splits)

section \<open>The calls of the work branch\<close>

lemma work_calls_wf:
  fixes q :: QueueRR and quantum :: int
  assumes "q_wf q" "q_size q \<noteq> 0"
  defines "t \<equiv> hd (q_tasks q)"
  defines "t' \<equiv> t\<lparr>remaining := remaining t - min quantum (remaining t)\<rparr>"
  shows "\<exists>b q2 q3. q_peek q = Inr (Some t) \<and>
           list_set (q_buf q) (q_front q) (Some t') = Inr b \<and>
           q_dequeue (q\<lparr>q_buf := b\<rparr>) = Inr (Some t', q2) \<and>
           q_enqueue q2 t' = Inr (True, q3)"
proof -
  define q1 where "q1 = q\<lparr>q_buf := (q_buf q)[nat (q_front q) := Some t']\<rparr>"
  define q2 where "q2 = q1\<lparr>q_buf := (q_buf q1)[nat (q_front q1) := None],
                    q_front := (q_front q1 + 1) mod capacity q1, q_size := q_size q1 - 1\<rparr>"
  have pk: "q_peek q = Inr (Some t)"
    using q_peek_wf [OF assms(1,2)] by (simp add: t_def)
  have ls: "list_set (q_buf q) (q_front q) (Some t') = Inr (q_buf q1)"
    and wf1: "q_wf q1" and sl1: "slots q1 = Some t' # tl (slots q)"
    using head_update_wf [OF assms(1,2), of t'] by (simp_all add: q1_def)
  have ne1: "q_size q1 \<noteq> 0" using assms(2) by (simp add: q1_def)
  have hd1: "hd (q_tasks q1) = t'" by (simp add: q_tasks_def sl1)
  have dq: "q_dequeue q1 = Inr (Some t', q2)" and wf2: "q_wf q2"
    using q_dequeue_wf [OF wf1 ne1] hd1 by (simp_all add: q2_def)
  have room: "q_size q2 < capacity q2"
    using assms(1) by (simp add: q2_def q1_def q_wf_def)
  define q3 where "q3 = q2\<lparr>q_buf := (q_buf q2)[nat ((q_front q2 + q_size q2) mod capacity q2) := Some t'],
                    q_size := q_size q2 + 1\<rparr>"
  have enq: "q_enqueue q2 t' = Inr (True, q3)"
    using q_enqueue_wf(1) [OF wf2 room, of t'] by (simp add: q3_def)
  have q1eq: "q\<lparr>q_buf := q_buf q1\<rparr> = q1" by (simp add: q1_def)
  have dq': "q_dequeue (q\<lparr>q_buf := q_buf q1\<rparr>) = Inr (Some t', q2)"
    using dq by (simp only: q1eq)
  show ?thesis
    using pk ls dq' enq by (intro exI [of _ "q_buf q1"] exI [of _ q2] exI [of _ q3]) simp
qed

lemma sched_inv_cap_ok:
  assumes "sched_inv s"
  shows "cap_ok s"
proof -
  have "list_all (\<lambda>(k, q). q_wf q \<and> tasks_pos q) (queues s)"
    using assms by (simp add: sched_inv_def)
  then show ?thesis
    unfolding cap_ok_def list_all_iff by (auto simp: q_wf_def)
qed

section \<open>The example states are reachable\<close>

lemma cafe_state_reached: "exec_all Scheduler_init cafe_commands = Some (Inr cafe_state)"
  by code_simp

lemma full_state_reached: "exec_all Scheduler_init full_commands = Some (Inr full_state)"
  by code_simp

lemma cafe_state_inv: "sched_inv cafe_state"
  by code_simp

lemma full_state_inv: "sched_inv full_state"
  by code_simp

lemma str_int_0: "str_int 0 = ''0''"
  by (simp add: str_int_def digits.simps)

section \<open>Termination of the run to quiescence\<close>

lemma flags_update_less:
  "map_of fl k = Some True \<Longrightarrow>
     length (filter snd (AList.update k False fl)) < length (filter snd fl)"
proof (induction fl)
  case Nil
  then show ?case by simp
next
  case (Cons p fl)
  obtain k' v' where p: "p = (k', v')" by (cases p)
  show ?case
  proof (cases "k' = k")
    case True
    with Cons.prems p have "v' = True" by simp
    with True p show ?thesis by simp
  next
    case False
    with Cons.prems p have "map_of fl k = Some True" by simp
    from Cons.IH [OF this] False p show ?thesis by simp
  qed
qed

lemma weight_update:
  "map_of al k = Some q \<Longrightarrow>
     sum_list (map (\<lambda>(k, q). q_weight q) (AList.update k q' al)) + q_weight q =
     sum_list (map (\<lambda>(k, q). q_weight q) al) + q_weight q'"
proof (induction al)
  case Nil
  then show ?case by simp
next
  case (Cons p al)
  obtain k' v' where p: "p = (k', v')" by (cases p)
  show ?case
  proof (cases "k' = k")
    case True
    with Cons.prems p have "v' = q" by simp
    with True p show ?thesis by simp
  next
    case False
    with Cons.prems p have "map_of al k = Some q" by simp
    from Cons.IH [OF this] False p show ?thesis by simp
  qed
qed

lemma idle_advance [simp]: "idle (advance s n) qid = idle s qid"
  by (simp add: idle_def)

lemma load_advance [simp]: "load (advance s n) = load s"
  by (simp add: load_def)

text \<open>A turn with a quantum of at least one lowers the load, or it finds the visited
  queue idle and only moves the pointer.\<close>

lemma turn_load:
  assumes "sched_inv s" "queue_order s \<noteq> []" "1 \<le> quantum"
  shows "\<exists>lines s'. turn quantum s = Inr (lines, s') \<and> sched_inv s' \<and>
           queue_order s' = queue_order s \<and>
           (load s' < load s \<or>
            idle s (cur s) \<and> s' = advance s (int (length (queue_order s))))"
proof -
  note c = sched_inv_cur [OF assms(1,2)]
  obtain q where q: "map_of (queues s) (cur s) = Some q"
    using sched_inv_queue [OF assms(1) c(2)] by blast
  note qf = sched_inv_map_of [OF assms(1) q]
  let ?n = "int (length (queue_order s))"
  show ?thesis
  proof (cases "skip_flag_get s (cur s)")
    case True
    let ?s1 = "s\<lparr>skip_flags := dict_set (skip_flags s) (cur s) False\<rparr>"
    from turn_skip(1) [OF assms(1,2) True, of quantum] obtain lines where
      t: "turn quantum s = Inr (lines, advance ?s1 ?n)"
      by blast
    have i: "sched_inv (advance ?s1 ?n)" by (rule turn_skip(2) [OF assms(1,2) True])
    from True have "map_of (skip_flags s) (cur s) = Some True"
      by (auto simp: skip_flag_get_def split: option.splits)
    from flags_update_less [OF this] have "load (advance ?s1 ?n) < load s"
      by (simp add: load_def dict_set_def)
    with t i show ?thesis by (intro exI [of _ lines] exI [of _ "advance ?s1 ?n"]) simp
  next
    case False
    show ?thesis
    proof (cases "q_size q = 0")
      case True
      from turn_empty [OF assms(1,2) False q True, of quantum] obtain lines where
        t: "turn quantum s = Inr (lines, advance s ?n)" by blast
      have "idle s (cur s)" using False True q by (simp add: idle_def)
      with t sched_inv_advance [OF assms(1,2)] show ?thesis
        by (intro exI [of _ lines] exI [of _ "advance s ?n"]) simp
    next
      case ne: False
      define t where "t = hd (q_tasks q)"
      define t' where "t' = t\<lparr>remaining := remaining t - min quantum (remaining t)\<rparr>"
      from turn_work [OF assms(1,2) False q ne, of quantum] obtain q' s' lines where
        tk: "q_tasks q' = (if remaining t' = 0 then tl (q_tasks q) else tl (q_tasks q) @ [t'])"
        and s': "s' = advance (s\<lparr>time := time s + min quantum (remaining t),
                    queues := dict_set (queues s) (cur s) q'\<rparr>) ?n"
        and i: "sched_inv s'" and tn: "turn quantum s = Inr (lines, s')"
        unfolding t_def t'_def by blast
      have ts: "q_tasks q = t # tl (q_tasks q)"
        using q_tasks_nonempty [OF qf(1) ne] by (simp add: t_def)
      then have "t \<in> set (q_tasks q)" by (metis list.set_intros(1))
      with qf(2) have pos: "0 < remaining t" by (simp add: tasks_pos_def list_all_iff)
      have r: "remaining t' = remaining t - min quantum (remaining t)" by (simp add: t'_def)
      have less: "nat (remaining t') < nat (remaining t)" "0 \<le> remaining t'"
        using pos assms(3) unfolding r by linarith+
      have w: "q_weight q = nat (remaining t) + sum_list (map (\<lambda>t. nat (remaining t)) (tl (q_tasks q)))"
        unfolding q_weight_def by (subst ts) simp
      have w': "q_weight q' < q_weight q"
        using less pos unfolding w by (simp add: q_weight_def tk)
      from weight_update [OF q, of q'] w'
      have "sum_list (map (\<lambda>(k, q). q_weight q) (AList.update (cur s) q' (queues s)))
              < sum_list (map (\<lambda>(k, q). q_weight q) (queues s))"
        by linarith
      then have "load s' < load s" by (simp add: s' load_def dict_set_def)
      moreover have "queue_order s' = queue_order s" by (simp add: s')
      ultimately show ?thesis using tn i by blast
    qed
  qed
qed

lemma gap_advance:
  assumes "sched_inv s" "queue_order s \<noteq> []" "idle s (cur s)"
    "\<not> (\<forall>qid\<in>set (queue_order s). idle s qid)"
  shows "gap (advance s (int (length (queue_order s)))) < gap s"
proof -
  note c = sched_inv_cur [OF assms(1,2)]
  let ?n = "length (queue_order s)" and ?r = "nat (rr_index s)"
  let ?P = "\<lambda>d. \<not> idle s (queue_order s ! ((?r + d) mod ?n))"
  have n: "0 < ?n" using assms(2) by simp
  have r: "?r < ?n" using c(3,4) by linarith
  from assms(4) obtain i where i: "i < ?n" "\<not> idle s (queue_order s ! i)"
    by (auto simp: in_set_conv_nth)
  have "(?r + (i + ?n - ?r)) mod ?n = i" using i(1) r by simp
  with i(2) have ex: "?P (i + ?n - ?r)" by simp
  have g: "?P (gap s)" unfolding gap_def using ex by (rule LeastI)
  have "\<not> ?P 0" using assms(3) r by (simp add: cur_def)
  with g obtain g' where g': "gap s = Suc g'" by (cases "gap s") auto
  have rr': "nat ((rr_index s + 1) mod int ?n) = (?r + 1) mod ?n"
    using c(3) n by (simp add: nat_mod_distrib nat_add_distrib)
  have sh: "(Suc ?r mod ?n + d) mod ?n = Suc (?r + d) mod ?n" for d
    by (simp add: mod_simps)
  have "\<not> idle (advance s (int ?n))
          (queue_order (advance s (int ?n)) !
             ((nat (rr_index (advance s (int ?n))) + g') mod length (queue_order (advance s (int ?n)))))"
    using g unfolding g' by (simp add: rr' sh)
  then have "gap (advance s (int ?n)) \<le> g'"
    unfolding gap_def by (rule Least_le)
  with g' show ?thesis by simp
qed

lemma run_loop_stop:
  assumes "queue_order s \<noteq> []" "turn quantum s = Inr (lines, s1)" "quiescent s1 = Inr True"
  shows "run_loop quantum None turns_done logs s = Some (Inr (turns_done + 1, logs @ lines, s1))"
  using assms by (subst run_loop.simps) simp

lemma run_loop_continue:
  assumes "queue_order s \<noteq> []" "turn quantum s = Inr (lines, s1)" "quiescent s1 = Inr False"
  shows "run_loop quantum None turns_done logs s =
           run_loop quantum None (turns_done + 1) (logs @ lines) s1"
  using assms by (subst run_loop.simps) simp

lemma wf_load_gap: "wf (measures [load, gap])"
  by (rule wf_measures)

lemma run_loop_busy_terminates:
  assumes "1 \<le> quantum"
  shows "sched_inv s \<Longrightarrow> queue_order s \<noteq> [] \<Longrightarrow>
         \<not> (\<forall>qid\<in>set (queue_order s). idle s qid) \<Longrightarrow>
         \<exists>r. run_loop quantum None turns_done logs s = Some r"
proof (induction s arbitrary: turns_done logs rule: wf_induct_rule [OF wf_load_gap])
  case (1 s)
  note i = \<open>sched_inv s\<close> and ne = \<open>queue_order s \<noteq> []\<close>
    and busy = \<open>\<not> (\<forall>qid\<in>set (queue_order s). idle s qid)\<close>
  from turn_load [OF i ne assms] obtain lines s1 where
    t: "turn quantum s = Inr (lines, s1)" and i1: "sched_inv s1"
    and o1: "queue_order s1 = queue_order s"
    and d: "load s1 < load s \<or>
            idle s (cur s) \<and> s1 = advance s (int (length (queue_order s)))"
    by blast
  have ne1: "queue_order s1 \<noteq> []" using ne o1 by simp
  note qs = quiescent_inv [OF i1]
  show ?case
  proof (cases "\<forall>qid\<in>set (queue_order s1). idle s1 qid")
    case True
    with qs have "quiescent s1 = Inr True" by simp
    from run_loop_stop [OF ne t this] show ?thesis by simp
  next
    case False
    with qs have q: "quiescent s1 = Inr False" by simp
    have "(s1, s) \<in> measures [load, gap]"
    proof (cases "load s1 < load s")
      case True
      then show ?thesis by simp
    next
      case nl: False
      with d have a: "idle s (cur s)" "s1 = advance s (int (length (queue_order s)))" by simp_all
      from gap_advance [OF i ne a(1) busy] a(2) show ?thesis by simp
    qed
    from "1.IH" [OF this i1 ne1 False] obtain r where
      "run_loop quantum None (turns_done + 1) (logs @ lines) s1 = Some r" by blast
    with run_loop_continue [OF ne t q] show ?thesis by simp
  qed
qed

text \<open>With a quantum of at least one, the run to quiescence returns.\<close>

lemma run_loop_none_terminates:
  assumes "1 \<le> quantum" "sched_inv s" "queue_order s \<noteq> []"
  shows "\<exists>r. run_loop quantum None turns_done logs s = Some r"
proof -
  from turn_total [OF assms(2,3), of quantum] obtain lines s1 where
    t: "turn quantum s = Inr (lines, s1)" and i1: "sched_inv s1"
    and o1: "queue_order s1 = queue_order s"
    by blast
  have ne1: "queue_order s1 \<noteq> []" using assms(3) o1 by simp
  note qs = quiescent_inv [OF i1]
  show ?thesis
  proof (cases "\<forall>qid\<in>set (queue_order s1). idle s1 qid")
    case True
    with qs have "quiescent s1 = Inr True" by simp
    from run_loop_stop [OF assms(3) t this] show ?thesis by simp
  next
    case False
    with qs have q: "quiescent s1 = Inr False" by simp
    from run_loop_busy_terminates [OF assms(1) i1 ne1 False] obtain r where
      "run_loop quantum None (turns_done + 1) (logs @ lines) s1 = Some r" by blast
    with run_loop_continue [OF assms(3) t q] show ?thesis by simp
  qed
qed

section \<open>The pointer and the flags over several turns\<close>

text \<open>After \<open>j\<close> turns the pointer has moved \<open>j\<close> positions, and the flag of a queue that
  none of these turns visited is as it was.\<close>

lemma turns_cursor:
  assumes "sched_inv s" "queue_order s \<noteq> []"
  shows "\<exists>lines sj. turns quantum j s = Inr (lines, sj) \<and> sched_inv sj \<and>
           queue_order sj = queue_order s \<and>
           rr_index sj = (rr_index s + int j) mod int (length (queue_order s)) \<and>
           (\<forall>x. (\<forall>i<j. queue_order s ! nat ((rr_index s + int i) mod int (length (queue_order s))) \<noteq> x)
                \<longrightarrow> skip_flag_get sj x = skip_flag_get s x)"
  using assms
proof (induction j arbitrary: s)
  case 0
  note c = sched_inv_cur [OF "0.prems"]
  show ?case using "0.prems" c(3,4) by simp
next
  case (Suc j)
  let ?n = "int (length (queue_order s))"
  note c = sched_inv_cur [OF Suc.prems]
  from turn_total [OF Suc.prems, of quantum] obtain l1 s1 where
    t: "turn quantum s = Inr (l1, s1)" and i1: "sched_inv s1"
    and o1: "queue_order s1 = queue_order s"
    and r1: "rr_index s1 = (rr_index s + 1) mod ?n"
    and f1: "\<forall>k. skip_flag_get s1 k = (skip_flag_get s k \<and> k \<noteq> cur s)"
    by blast
  have ne1: "queue_order s1 \<noteq> []" using Suc.prems(2) o1 by simp
  from Suc.IH [OF i1 ne1] obtain l2 sj where
    tj: "turns quantum j s1 = Inr (l2, sj)" and ij: "sched_inv sj"
    and oj: "queue_order sj = queue_order s1"
    and rj: "rr_index sj = (rr_index s1 + int j) mod int (length (queue_order s1))"
    and fj: "\<forall>x. (\<forall>i<j. queue_order s1 !
                   nat ((rr_index s1 + int i) mod int (length (queue_order s1))) \<noteq> x)
                \<longrightarrow> skip_flag_get sj x = skip_flag_get s1 x"
    by blast
  have sh: "((rr_index s + 1) mod ?n + int i) mod ?n = (rr_index s + int (Suc i)) mod ?n" for i
    by (simp add: mod_simps ac_simps)
  have 1: "turns quantum (Suc j) s = Inr (l1 @ l2, sj)" using t tj by simp
  have 2: "rr_index sj = (rr_index s + int (Suc j)) mod ?n"
    using rj by (simp only: o1 r1 sh)
  have 3: "skip_flag_get sj x = skip_flag_get s x"
    if a: "\<forall>i<Suc j. queue_order s ! nat ((rr_index s + int i) mod ?n) \<noteq> x" for x
  proof -
    from a [rule_format, of 0] c(3,4) have "cur s \<noteq> x" by (simp add: cur_def)
    with f1 have x1: "skip_flag_get s1 x = skip_flag_get s x" by auto
    have "\<forall>i<j. queue_order s1 !
             nat ((rr_index s1 + int i) mod int (length (queue_order s1))) \<noteq> x"
    proof (intro allI impI)
      fix i assume "i < j"
      then have "Suc i < Suc j" by simp
      from a [rule_format, OF this]
      show "queue_order s1 ! nat ((rr_index s1 + int i) mod int (length (queue_order s1))) \<noteq> x"
        by (simp only: o1 r1 sh simp_thms)
    qed
    with fj x1 show ?thesis by simp
  qed
  from 1 ij oj o1 2 3 show ?case
    by (intro exI [of _ "l1 @ l2"] exI [of _ sj]) simp
qed

text \<open>A queue of the order is reached within one round.\<close>

lemma first_visit:
  assumes "sched_inv s" "qid \<in> set (queue_order s)"
  shows "\<exists>d<length (queue_order s).
           queue_order s ! nat ((rr_index s + int d) mod int (length (queue_order s))) = qid \<and>
           (\<forall>i<d. queue_order s ! nat ((rr_index s + int i) mod int (length (queue_order s))) \<noteq> qid)"
proof -
  let ?n = "length (queue_order s)"
  let ?P = "\<lambda>d. queue_order s ! nat ((rr_index s + int d) mod int ?n) = qid"
  have ne: "queue_order s \<noteq> []" using assms(2) by auto
  note c = sched_inv_cur [OF assms(1) ne]
  from assms(2) obtain p where p: "p < ?n" "queue_order s ! p = qid"
    by (auto simp: in_set_conv_nth)
  define d0 where "d0 = (p + ?n - nat (rr_index s)) mod ?n"
  have "(rr_index s + int d0) mod int ?n = int p"
  proof -
    have "int d0 = (int p + int ?n - rr_index s) mod int ?n"
      using c(3,4) p(1) unfolding d0_def by (simp add: zmod_int of_nat_diff)
    then have "(rr_index s + int d0) mod int ?n = (int p + int ?n) mod int ?n"
      by (simp add: mod_simps)
    then show ?thesis using p(1) by simp
  qed
  then have P0: "?P d0" using p(2) by simp
  have "0 < ?n" using ne by simp
  then have d0: "d0 < ?n" unfolding d0_def by (rule mod_less_divisor)
  define d where "d = (LEAST d. ?P d)"
  have Pd: "?P d" unfolding d_def using P0 by (rule LeastI)
  have "d \<le> d0" unfolding d_def using P0 by (rule Least_le)
  with d0 have dn: "d < ?n" by simp
  have "\<not> ?P i" if "i < d" for i
    using that not_less_Least unfolding d_def by blast
  with Pd dn show ?thesis by blast
qed

text \<open>The turn that visits a queue whose flag is set: it clears the flag, does no work and
  logs the \<open>run\<close> line and the snapshot; no later turn finds the flag set.\<close>

lemma skip_turn_clears:
  assumes i: "sched_inv s" and ne: "queue_order s \<noteq> []"
    and g: "list_get (queue_order s) (rr_index s) = Inr qid" and f: "skip_flag_get s qid"
  shows "\<exists>lines s1 s'.
         s1 = s\<lparr>skip_flags := dict_set (skip_flags s) qid False\<rparr> \<and>
         display s1 = Inr (lines, s1) \<and>
         turn quantum s = Inr (run_log s qid # lines, s') \<and>
         s' = advance s1 (int (length (queue_order s))) \<and>
         \<not> skip_flag_get s' qid \<and> time s' = time s \<and> queues s' = queues s \<and>
         (\<forall>k. \<exists>more s''. turns quantum k s' = Inr (more, s'') \<and> \<not> skip_flag_get s'' qid)"
proof -
  have q: "qid = cur s" using sched_inv_cur(1) [OF i ne] g by simp
  define s1 where "s1 = s\<lparr>skip_flags := dict_set (skip_flags s) qid False\<rparr>"
  define s' where "s' = advance s1 (int (length (queue_order s)))"
  from turn_skip(1) [OF i ne, of quantum] f obtain ls where
    d: "display s1 = Inr (display_head s1 (Some qid) # display_menu s1 # ls, s1)"
    and t: "turn quantum s =
              Inr (run_log s qid # display_head s1 (Some qid) # display_menu s1 # ls, s')"
    unfolding q s1_def s'_def by blast
  have i': "sched_inv s'" and o': "queue_order s' \<noteq> []"
    using turn_skip(2) [OF i ne] f ne unfolding q s1_def s'_def by simp_all
  have c: "\<not> skip_flag_get s' qid"
    by (simp add: s'_def s1_def skip_flag_get_upd)
  have later: "\<exists>more s''. turns quantum k s' = Inr (more, s'') \<and> \<not> skip_flag_get s'' qid" for k
    using turns_total [OF i' o', of quantum k] c by blast
  have "time s' = time s" "queues s' = queues s" by (simp_all add: s'_def s1_def)
  with d t c later show ?thesis unfolding s1_def s'_def by blast
qed

text \<open>
  After \<open>mark_skip\<close> on a known queue, wherever the pointer is: the turns that come before
  the queue is visited are turns of other queues and leave its flag set; the queue is
  visited within one round, and that turn is the skipped one.
\<close>

lemma skip_consumed_once:
  assumes "sched_inv s" "qid \<in> set (queue_order s)" "skip_flag_get s qid"
  shows "\<exists>d<length (queue_order s). \<exists>before sd lines s'.
           turns quantum d s = Inr (before, sd) \<and>
           (\<forall>j<d. \<exists>lj sj. turns quantum j s = Inr (lj, sj) \<and>
                     list_get (queue_order sj) (rr_index sj) \<noteq> Inr qid \<and>
                     skip_flag_get sj qid) \<and>
           list_get (queue_order sd) (rr_index sd) = Inr qid \<and> skip_flag_get sd qid \<and>
           display (sd\<lparr>skip_flags := dict_set (skip_flags sd) qid False\<rparr>) =
             Inr (lines, sd\<lparr>skip_flags := dict_set (skip_flags sd) qid False\<rparr>) \<and>
           turn quantum sd = Inr (run_log sd qid # lines, s') \<and>
           time s' = time sd \<and> queues s' = queues sd \<and> \<not> skip_flag_get s' qid \<and>
           (\<forall>k. \<exists>more s''. turns quantum k s' = Inr (more, s'') \<and> \<not> skip_flag_get s'' qid)"
proof -
  let ?n = "int (length (queue_order s))"
  have ne: "queue_order s \<noteq> []" using assms(2) by auto
  from first_visit [OF assms(1,2)] obtain d where
    dn: "d < length (queue_order s)"
    and dv: "queue_order s ! nat ((rr_index s + int d) mod ?n) = qid"
    and dl: "\<forall>i<d. queue_order s ! nat ((rr_index s + int i) mod ?n) \<noteq> qid"
    by blast
  have at: "\<exists>lines sj. turns quantum j s = Inr (lines, sj) \<and> sched_inv sj \<and>
              queue_order sj = queue_order s \<and>
              list_get (queue_order sj) (rr_index sj) =
                Inr (queue_order s ! nat ((rr_index s + int j) mod ?n)) \<and>
              skip_flag_get sj qid"
    if "j \<le> d" for j
  proof -
    from turns_cursor [OF assms(1) ne, of quantum j] obtain lines sj where
      t: "turns quantum j s = Inr (lines, sj)" and ij: "sched_inv sj"
      and oj: "queue_order sj = queue_order s"
      and rj: "rr_index sj = (rr_index s + int j) mod ?n"
      and fj: "\<forall>x. (\<forall>i<j. queue_order s ! nat ((rr_index s + int i) mod ?n) \<noteq> x)
                \<longrightarrow> skip_flag_get sj x = skip_flag_get s x"
      by blast
    have "\<forall>i<j. queue_order s ! nat ((rr_index s + int i) mod ?n) \<noteq> qid"
      using dl that by simp
    with fj assms(3) have "skip_flag_get sj qid" by simp
    moreover have "list_get (queue_order sj) (rr_index sj) =
                Inr (queue_order s ! nat ((rr_index s + int j) mod ?n))"
      using sched_inv_cur(1) [OF ij] ne oj rj by (simp add: cur_def)
    ultimately show ?thesis using t ij oj by blast
  qed
  from at [of d] obtain before sd where
    td: "turns quantum d s = Inr (before, sd)" and isd: "sched_inv sd"
    and od: "queue_order sd = queue_order s"
    and gd: "list_get (queue_order sd) (rr_index sd) = Inr qid"
    and fd: "skip_flag_get sd qid"
    using dv by auto
  have earlier: "\<forall>j<d. \<exists>lj sj. turns quantum j s = Inr (lj, sj) \<and>
                     list_get (queue_order sj) (rr_index sj) \<noteq> Inr qid \<and>
                     skip_flag_get sj qid"
  proof (intro allI impI)
    fix j assume j: "j < d"
    from at [of j] j obtain lj sj where
      "turns quantum j s = Inr (lj, sj)"
      "list_get (queue_order sj) (rr_index sj) =
         Inr (queue_order s ! nat ((rr_index s + int j) mod ?n))"
      "skip_flag_get sj qid"
      by auto
    moreover from dl j have "queue_order s ! nat ((rr_index s + int j) mod ?n) \<noteq> qid" by simp
    ultimately show "\<exists>lj sj. turns quantum j s = Inr (lj, sj) \<and>
                     list_get (queue_order sj) (rr_index sj) \<noteq> Inr qid \<and>
                     skip_flag_get sj qid"
      by auto
  qed
  have ned: "queue_order sd \<noteq> []" using ne od by simp
  from skip_turn_clears [OF isd ned gd fd, of quantum] obtain lines s' where
    "display (sd\<lparr>skip_flags := dict_set (skip_flags sd) qid False\<rparr>) =
       Inr (lines, sd\<lparr>skip_flags := dict_set (skip_flags sd) qid False\<rparr>)"
    "turn quantum sd = Inr (run_log sd qid # lines, s')"
    "time s' = time sd" "queues s' = queues sd" "\<not> skip_flag_get s' qid"
    "\<forall>k. \<exists>more s''. turns quantum k s' = Inr (more, s'') \<and> \<not> skip_flag_get s'' qid"
    by blast
  with dn td earlier gd fd show ?thesis by blast
qed

section \<open>What the quiescence test says\<close>

lemma idle_all_iff:
  assumes "sched_inv s"
  shows "(\<forall>qid\<in>set (queue_order s). idle s qid) \<longleftrightarrow>
         (\<forall>qid q. dict_get (queues s) qid = Inr q \<longrightarrow> q_len q = 0) \<and>
         (\<forall>qid. \<not> skip_flag_get s qid)"
proof
  assume a: "\<forall>qid\<in>set (queue_order s). idle s qid"
  have "q_len q = 0" if "dict_get (queues s) qid = Inr q" for qid q
  proof -
    from that have m: "map_of (queues s) qid = Some q" by (simp add: dict_get_Inr)
    from sched_inv_map_of(3) [OF assms m] a have "idle s qid" by blast
    with m show ?thesis by (simp add: idle_def q_len_def)
  qed
  moreover have "\<not> skip_flag_get s qid" for qid
  proof
    assume f: "skip_flag_get s qid"
    then have "map_of (skip_flags s) qid \<noteq> None"
      by (auto simp: skip_flag_get_def split: option.splits)
    then have "qid \<in> set (map fst (skip_flags s))"
      by (simp add: map_of_eq_None_iff)
    with assms have "qid \<in> set (queue_order s)" by (simp add: sched_inv_def)
    with a have "idle s qid" by blast
    with f show False by (simp add: idle_def)
  qed
  ultimately show "(\<forall>qid q. dict_get (queues s) qid = Inr q \<longrightarrow> q_len q = 0) \<and>
         (\<forall>qid. \<not> skip_flag_get s qid)"
    by blast
next
  assume b: "(\<forall>qid q. dict_get (queues s) qid = Inr q \<longrightarrow> q_len q = 0) \<and>
         (\<forall>qid. \<not> skip_flag_get s qid)"
  show "\<forall>qid\<in>set (queue_order s). idle s qid"
  proof
    fix qid assume "qid \<in> set (queue_order s)"
    show "idle s qid"
      using b by (auto simp: idle_def dict_get_Inr q_len_def split: option.splits)
  qed
qed

lemma quiescent_explicit:
  assumes "sched_inv s"
  shows "quiescent s = Inr True \<longleftrightarrow>
           (\<forall>qid q. dict_get (queues s) qid = Inr q \<longrightarrow> q_len q = 0) \<and>
           (\<forall>qid. \<not> skip_flag_get s qid)"
    and "quiescent s = Inr False \<longleftrightarrow>
           (\<exists>qid. (\<exists>q. dict_get (queues s) qid = Inr q \<and> q_len q \<noteq> 0) \<or> skip_flag_get s qid)"
  using quiescent_inv [OF assms] idle_all_iff [OF assms] by auto

lemma tasks_list_empty:
  assumes "sched_inv s" "dict_get (queues s) qid = Inr q" "q_len q = 0"
  shows "tasks_list q = Inr []"
proof -
  from assms(2) have m: "map_of (queues s) qid = Some q" by (simp add: dict_get_Inr)
  have "length (q_tasks q) = 0" using assms(3) by (simp add: q_len_def)
  then have "q_tasks q = []" by (simp only: length_0_conv)
  then show ?thesis using tasks_list_wf [OF sched_inv_map_of(1) [OF assms(1) m]] by simp
qed

section \<open>Claims\<close>

text \<open>
  Claim C4. With at least one queue, \<open>run\<close> with \<open>steps\<close> outside \<open>[1, number of queues]\<close>
  returns exactly one \<open>error\<close> line with reason \<open>invalid_steps\<close> and the state it was
  given: no turn is made and the clock, the queues, the counters, the skip flags and the
  pointer are unchanged. With no queue, \<open>run\<close> returns no line and the state it was
  given, whatever \<open>quantum\<close> and \<open>steps\<close> are.
\<close>

theorem run_invalid_steps:
  "(queue_order s \<noteq> [] \<and> \<not> (1 \<le> k \<and> k \<le> int (length (queue_order s))) \<longrightarrow>
      run s quantum (Some k) =
        Some (Inr ([''time='' @ str_int (time s) @ '' event=error reason=invalid_steps''], s))) \<and>
   (queue_order s = [] \<longrightarrow> run s quantum steps = Some (Inr ([], s)))"
  by (simp add: run_def)

theorem run_invalid_steps_witness:
  "run cafe_state 1 (Some 3) =
     Some (Inr ([''time=0 event=error reason=invalid_steps''], cafe_state)) \<and>
   run cafe_state 1 (Some 0) =
     Some (Inr ([''time=0 event=error reason=invalid_steps''], cafe_state)) \<and>
   run Scheduler_init 1 None = Some (Inr ([], Scheduler_init))"
proof -
  have o: "queue_order cafe_state = [''A'', ''B'']" "time cafe_state = 0"
    "queue_order Scheduler_init = []"
    by (simp_all add: cafe_state_def Scheduler_init_def)
  show ?thesis
    using run_invalid_steps [of cafe_state 3 1 None] run_invalid_steps [of cafe_state 0 1 None]
      run_invalid_steps [of Scheduler_init 0 1 None]
    by (simp add: o str_int_0)
qed

text \<open>
  Claim C1. A rejected admission leaves the whole dispatcher state unchanged. The
  admission into a full queue does not: \<open>Scheduler.enqueue\<close> increments the counter of the
  queue before it asks the queue for room. After \<open>CREATE A 1\<close> and \<open>ENQ A latte\<close> the
  counter of \<open>A\<close> is 1; the rejected \<open>ENQ A tea\<close> returns one \<open>reject\<close> line with reason
  \<open>full\<close> and leaves the counter at 2, the queue and the clock as they were. Once the
  queue has been served (\<open>RUN 3\<close>), the next admitted task is \<open>A-003\<close>: the number 002 was
  spent on the rejection.
\<close>

theorem full_rejection_bumps_counter:
  "exec_all Scheduler_init full_commands = Some (Inr full_state) \<and>
   id_counters full_state = [(''A'', 1)] \<and>
   enqueue full_state ''A'' ''tea'' =
     Inr ([''time=0 event=reject queue=A reason=full''],
          [''Sorry, we'' @ [CHR 0x27] @ ''re at capacity.''],
          full_state\<lparr>id_counters := [(''A'', 2)]\<rparr>) \<and>
   map_option (map_sum id (\<lambda>s. map (\<lambda>(k, q). (k, tasks_list q)) (queues s)))
     (exec_all Scheduler_init
        (full_commands @ [ENQ ''A'' ''tea'', RUN 3 None, ENQ ''A'' ''tea''])) =
     Some (Inr [(''A'', Inr [\<lparr>task_id = ''A-003'', remaining = 1\<rparr>])])"
  by code_simp

text \<open>
  Claim C8. A successful admission (known item, known queue with room) raises the counter
  of the queue by one, puts at the tail of the queue a task whose id is the queue id,
  \<open>-\<close> and the new counter padded with zeros to three digits and whose remaining burst is
  the menu cost of the item, returns exactly one \<open>enqueue\<close> line with that id and that
  burst, prints nothing, and leaves the clock as it was. A queue that was just created
  has counter 0, so its first task is \<open>Q-001\<close>.
\<close>

theorem admit_success:
  assumes "sched_inv s" "map_of (menu s) item = Some b" "map_of (queues s) qid = Some q"
    "q_size q < capacity q"
  shows "\<exists>c q' s'. dict_get (id_counters s) qid = Inr c \<and>
           enqueue s qid item =
             Inr ([''time='' @ str_int (time s) @ '' event=enqueue queue='' @ qid
                    @ '' task='' @ qid @ ''-'' @ fmt_03d (c + 1) @ '' remaining='' @ str_int b],
                  [], s') \<and>
           s' = s\<lparr>id_counters := dict_set (id_counters s) qid (c + 1),
                  queues := dict_set (queues s) qid q'\<rparr> \<and>
           dict_get (id_counters s') qid = Inr (c + 1) \<and>
           dict_get (queues s') qid = Inr q' \<and>
           time s' = time s \<and>
           tasks_list q = Inr (q_tasks q) \<and>
           tasks_list q' =
             Inr (q_tasks q @ [\<lparr>task_id = qid @ ''-'' @ fmt_03d (c + 1), remaining = b\<rparr>]) \<and>
           q_len q' = q_len q + 1 \<and> capacity q' = capacity q \<and>
           (0 \<le> c \<longrightarrow>
              fmt_03d (c + 1) = replicate (3 - length (str_int (c + 1))) CHR ''0'' @ str_int (c + 1)) \<and>
           (0 \<le> c \<and> c + 1 < 1000 \<longrightarrow> length (fmt_03d (c + 1)) = 3) \<and>
           ((\<exists>s0 cap logs. create_queue s0 qid cap = Inr (logs, s)) \<longrightarrow>
              fmt_03d (c + 1) = ''001'')"
proof -
  note qf = sched_inv_map_of [OF assms(1,3)]
  from assms(1) qf(3) have "qid \<in> fst ` set (id_counters s)" by (simp add: sched_inv_def)
  then obtain c where c: "map_of (id_counters s) qid = Some c"
    by (metis domD dom_map_of_conv_image_fst)
  let ?task = "\<lparr>task_id = qid @ ''-'' @ fmt_03d (c + 1), remaining = b\<rparr>"
  from enqueue_admit [OF assms(2,3) c qf(1) assms(4)] obtain q' where
    wf': "q_wf q'" and cap: "capacity q' = capacity q" and sz: "q_size q' = q_size q + 1"
    and tk: "q_tasks q' = q_tasks q @ [?task]"
    and e: "enqueue s qid item =
             Inr ([''time='' @ str_int (time s) @ '' event=enqueue queue='' @ qid
                    @ '' task='' @ task_id ?task @ '' remaining='' @ str_int b], [],
                  s\<lparr>id_counters := dict_set (id_counters s) qid (c + 1),
                    queues := dict_set (queues s) qid q'\<rparr>)"
    by blast
  define s' where "s' = s\<lparr>id_counters := dict_set (id_counters s) qid (c + 1),
                    queues := dict_set (queues s) qid q'\<rparr>"
  have 1: "dict_get (id_counters s) qid = Inr c" using c by (rule dict_get_Some)
  have 2: "enqueue s qid item =
             Inr ([''time='' @ str_int (time s) @ '' event=enqueue queue='' @ qid
                    @ '' task='' @ qid @ ''-'' @ fmt_03d (c + 1) @ '' remaining='' @ str_int b],
                  [], s')"
    using e by (simp add: s'_def)
  have 3: "dict_get (id_counters s') qid = Inr (c + 1)" "dict_get (queues s') qid = Inr q'"
    "time s' = time s"
    by (simp_all add: s'_def dict_get_def map_of_dict_set)
  have 4: "tasks_list q = Inr (q_tasks q)" "tasks_list q' = Inr (q_tasks q @ [?task])"
    using tasks_list_wf [OF qf(1)] tasks_list_wf [OF wf'] tk by simp_all
  have 5: "q_len q' = q_len q + 1" using sz by (simp add: q_len_def)
  have 6: "0 \<le> c \<longrightarrow>
      fmt_03d (c + 1) = replicate (3 - length (str_int (c + 1))) CHR ''0'' @ str_int (c + 1)"
    by (simp add: fmt_03d_nonneg)
  have 7: "0 \<le> c \<and> c + 1 < 1000 \<longrightarrow> length (fmt_03d (c + 1)) = 3"
    by (simp add: fmt_03d_length)
  have 8: "(\<exists>s0 cap logs. create_queue s0 qid cap = Inr (logs, s)) \<longrightarrow> fmt_03d (c + 1) = ''001''"
  proof
    assume "\<exists>s0 cap logs. create_queue s0 qid cap = Inr (logs, s)"
    then obtain s0 cap logs where "create_queue s0 qid cap = Inr (logs, s)" by blast
    then have "map_of (id_counters s) qid = Some 0"
      by (auto simp: create_queue_def bindE_Inr_iff Let_def map_of_dict_set)
    with c have "c = 0" by simp
    then show "fmt_03d (c + 1) = ''001''" by (simp add: fmt_03d_1)
  qed
  from 1 2 3 4 5 cap 6 7 8 show ?thesis
    unfolding s'_def by blast
qed

theorem admit_success_witness:
  "sched_inv cafe_state \<and> map_of (menu cafe_state) ''tea'' = Some 1 \<and>
   map_of (queues cafe_state) ''A'' = Some cafe_queue_A \<and>
   q_size cafe_queue_A < capacity cafe_queue_A \<and>
   (\<exists>c q' s'. dict_get (id_counters cafe_state) ''A'' = Inr c \<and>
           enqueue cafe_state ''A'' ''tea'' =
             Inr ([''time='' @ str_int (time cafe_state) @ '' event=enqueue queue='' @ ''A''
                    @ '' task='' @ ''A'' @ ''-'' @ fmt_03d (c + 1) @ '' remaining='' @ str_int 1],
                  [], s') \<and>
           s' = cafe_state\<lparr>id_counters := dict_set (id_counters cafe_state) ''A'' (c + 1),
                  queues := dict_set (queues cafe_state) ''A'' q'\<rparr> \<and>
           dict_get (id_counters s') ''A'' = Inr (c + 1) \<and>
           dict_get (queues s') ''A'' = Inr q' \<and>
           time s' = time cafe_state \<and>
           tasks_list cafe_queue_A = Inr (q_tasks cafe_queue_A) \<and>
           tasks_list q' =
             Inr (q_tasks cafe_queue_A
                    @ [\<lparr>task_id = ''A'' @ ''-'' @ fmt_03d (c + 1), remaining = 1\<rparr>]) \<and>
           q_len q' = q_len cafe_queue_A + 1 \<and> capacity q' = capacity cafe_queue_A \<and>
           (0 \<le> c \<longrightarrow>
              fmt_03d (c + 1) = replicate (3 - length (str_int (c + 1))) CHR ''0'' @ str_int (c + 1)) \<and>
           (0 \<le> c \<and> c + 1 < 1000 \<longrightarrow> length (fmt_03d (c + 1)) = 3) \<and>
           ((\<exists>s0 cap logs. create_queue s0 ''A'' cap = Inr (logs, cafe_state)) \<longrightarrow>
              fmt_03d (c + 1) = ''001''))"
proof -
  have h2: "map_of (menu cafe_state) ''tea'' = Some 1"
    by (simp add: cafe_state_def REQUIRED_MENU_def)
  have h3: "map_of (queues cafe_state) ''A'' = Some cafe_queue_A"
    by (simp add: cafe_state_def)
  have h4: "q_size cafe_queue_A < capacity cafe_queue_A"
    by (simp add: cafe_queue_A_def)
  show ?thesis
    by (intro conjI cafe_state_inv h2 h3 h4 admit_success [OF cafe_state_inv h2 h3 h4])
qed

text \<open>
  Claim C7. \<open>mark_skip\<close> always returns exactly one \<open>skip\<close> line. For an unknown queue id
  it changes nothing; for a known one it sets the flag of that queue and no other.
  Calling it twice gives the state that calling it once gives. In the turns that follow
  \<open>mark_skip\<close> on a known queue, wherever the pointer is: the turns before the queue is
  visited are turns of other queues and leave its flag set; the queue is visited within
  one round; that turn clears the flag, does no work (clock and queues unchanged) and
  logs only the \<open>run\<close> line and the snapshot; and no later turn finds the flag set again.
  So there is exactly one skipped turn for that queue.
\<close>

theorem mark_skip_once:
  "fst (mark_skip s qid) = [''time='' @ str_int (time s) @ '' event=skip queue='' @ qid] \<and>
   (\<not> dict_has (skip_flags s) qid \<longrightarrow> snd (mark_skip s qid) = s) \<and>
   (dict_has (skip_flags s) qid \<longrightarrow>
      snd (mark_skip s qid) = s\<lparr>skip_flags := dict_set (skip_flags s) qid True\<rparr> \<and>
      skip_flag_get (snd (mark_skip s qid)) qid \<and>
      (\<forall>k. k \<noteq> qid \<longrightarrow> skip_flag_get (snd (mark_skip s qid)) k = skip_flag_get s k)) \<and>
   snd (mark_skip (snd (mark_skip s qid)) qid) = snd (mark_skip s qid) \<and>
   (sched_inv s \<and> queue_order s \<noteq> [] \<and> list_get (queue_order s) (rr_index s) = Inr qid \<and>
    skip_flag_get s qid \<longrightarrow>
      (\<exists>lines s1 s'.
         s1 = s\<lparr>skip_flags := dict_set (skip_flags s) qid False\<rparr> \<and>
         display s1 = Inr (lines, s1) \<and>
         turn quantum s = Inr (run_log s qid # lines, s') \<and>
         s' = advance s1 (int (length (queue_order s))) \<and>
         \<not> skip_flag_get s' qid \<and> time s' = time s \<and> queues s' = queues s \<and>
         (\<forall>k. \<exists>more s''. turns quantum k s' = Inr (more, s'') \<and> \<not> skip_flag_get s'' qid))) \<and>
   (sched_inv s \<and> dict_has (skip_flags s) qid \<longrightarrow>
      (\<exists>d<length (queue_order s). \<exists>before sd lines s'.
         turns quantum d (snd (mark_skip s qid)) = Inr (before, sd) \<and>
         (\<forall>j<d. \<exists>lj sj. turns quantum j (snd (mark_skip s qid)) = Inr (lj, sj) \<and>
                   list_get (queue_order sj) (rr_index sj) \<noteq> Inr qid \<and>
                   skip_flag_get sj qid) \<and>
         list_get (queue_order sd) (rr_index sd) = Inr qid \<and> skip_flag_get sd qid \<and>
         display (sd\<lparr>skip_flags := dict_set (skip_flags sd) qid False\<rparr>) =
           Inr (lines, sd\<lparr>skip_flags := dict_set (skip_flags sd) qid False\<rparr>) \<and>
         turn quantum sd = Inr (run_log sd qid # lines, s') \<and>
         time s' = time sd \<and> queues s' = queues sd \<and> \<not> skip_flag_get s' qid \<and>
         (\<forall>k. \<exists>more s''. turns quantum k s' = Inr (more, s'') \<and> \<not> skip_flag_get s'' qid)))"
proof -
  have 1: "fst (mark_skip s qid) = [''time='' @ str_int (time s) @ '' event=skip queue='' @ qid]"
    by (simp add: mark_skip_def)
  have 2: "\<not> dict_has (skip_flags s) qid \<longrightarrow> snd (mark_skip s qid) = s"
    by (simp add: mark_skip_def)
  have 3: "dict_has (skip_flags s) qid \<longrightarrow>
      snd (mark_skip s qid) = s\<lparr>skip_flags := dict_set (skip_flags s) qid True\<rparr> \<and>
      skip_flag_get (snd (mark_skip s qid)) qid \<and>
      (\<forall>k. k \<noteq> qid \<longrightarrow> skip_flag_get (snd (mark_skip s qid)) k = skip_flag_get s k)"
    by (simp add: mark_skip_def skip_flag_get_upd)
  have 4: "snd (mark_skip (snd (mark_skip s qid)) qid) = snd (mark_skip s qid)"
    by (rule mark_skip_twice)
  have 5: "\<exists>lines s1 s'.
         s1 = s\<lparr>skip_flags := dict_set (skip_flags s) qid False\<rparr> \<and>
         display s1 = Inr (lines, s1) \<and>
         turn quantum s = Inr (run_log s qid # lines, s') \<and>
         s' = advance s1 (int (length (queue_order s))) \<and>
         \<not> skip_flag_get s' qid \<and> time s' = time s \<and> queues s' = queues s \<and>
         (\<forall>k. \<exists>more s''. turns quantum k s' = Inr (more, s'') \<and> \<not> skip_flag_get s'' qid)"
    if "sched_inv s" "queue_order s \<noteq> []"
      "list_get (queue_order s) (rr_index s) = Inr qid" "skip_flag_get s qid"
    using that by (rule skip_turn_clears)
  have 6: "\<exists>d<length (queue_order s). \<exists>before sd lines s'.
         turns quantum d (snd (mark_skip s qid)) = Inr (before, sd) \<and>
         (\<forall>j<d. \<exists>lj sj. turns quantum j (snd (mark_skip s qid)) = Inr (lj, sj) \<and>
                   list_get (queue_order sj) (rr_index sj) \<noteq> Inr qid \<and>
                   skip_flag_get sj qid) \<and>
         list_get (queue_order sd) (rr_index sd) = Inr qid \<and> skip_flag_get sd qid \<and>
         display (sd\<lparr>skip_flags := dict_set (skip_flags sd) qid False\<rparr>) =
           Inr (lines, sd\<lparr>skip_flags := dict_set (skip_flags sd) qid False\<rparr>) \<and>
         turn quantum sd = Inr (run_log sd qid # lines, s') \<and>
         time s' = time sd \<and> queues s' = queues sd \<and> \<not> skip_flag_get s' qid \<and>
         (\<forall>k. \<exists>more s''. turns quantum k s' = Inr (more, s'') \<and> \<not> skip_flag_get s'' qid)"
    if i: "sched_inv s" and h: "dict_has (skip_flags s) qid"
  proof -
    let ?m = "snd (mark_skip s qid)"
    have im: "sched_inv ?m" using i by (rule mark_skip_inv)
    have om: "queue_order ?m = queue_order s" by (simp add: mark_skip_def)
    have "qid \<in> set (queue_order s)" using i h by (simp add: dict_has_keys sched_inv_def)
    then have qm: "qid \<in> set (queue_order ?m)" by (simp add: om)
    have fm: "skip_flag_get ?m qid" using h by (simp add: mark_skip_def skip_flag_get_upd)
    from skip_consumed_once [OF im qm fm, of quantum] show ?thesis by (simp only: om)
  qed
  from 1 2 3 4 5 6 show ?thesis by blast
qed

theorem mark_skip_once_witness:
  "sched_inv (snd (mark_skip cafe_state ''A'')) \<and>
   queue_order (snd (mark_skip cafe_state ''A'')) \<noteq> [] \<and>
   list_get (queue_order (snd (mark_skip cafe_state ''A'')))
     (rr_index (snd (mark_skip cafe_state ''A''))) = Inr ''A'' \<and>
   skip_flag_get (snd (mark_skip cafe_state ''A'')) ''A'' \<and>
   dict_has (skip_flags cafe_state) ''A'' \<and> \<not> dict_has (skip_flags cafe_state) ''Z'' \<and>
   snd (mark_skip cafe_state ''Z'') = cafe_state \<and>
   skip_flag_get (snd (mark_skip cafe_state ''A'')) ''B'' = skip_flag_get cafe_state ''B'' \<and>
   (\<exists>lines s'. turn 1 (snd (mark_skip cafe_state ''A'')) =
        Inr (run_log (snd (mark_skip cafe_state ''A'')) ''A'' # lines, s') \<and>
      \<not> skip_flag_get s' ''A'' \<and> time s' = time (snd (mark_skip cafe_state ''A'')) \<and>
      queues s' = queues (snd (mark_skip cafe_state ''A''))) \<and>
   sched_inv cafe_state \<and> dict_has (skip_flags cafe_state) ''B'' \<and>
   list_get (queue_order (snd (mark_skip cafe_state ''B'')))
     (rr_index (snd (mark_skip cafe_state ''B''))) = Inr ''A'' \<and>
   (\<exists>d<length (queue_order cafe_state). \<exists>before sd lines s'.
         turns 1 d (snd (mark_skip cafe_state ''B'')) = Inr (before, sd) \<and>
         (\<forall>j<d. \<exists>lj sj. turns 1 j (snd (mark_skip cafe_state ''B'')) = Inr (lj, sj) \<and>
                   list_get (queue_order sj) (rr_index sj) \<noteq> Inr ''B'' \<and>
                   skip_flag_get sj ''B'') \<and>
         list_get (queue_order sd) (rr_index sd) = Inr ''B'' \<and> skip_flag_get sd ''B'' \<and>
         display (sd\<lparr>skip_flags := dict_set (skip_flags sd) ''B'' False\<rparr>) =
           Inr (lines, sd\<lparr>skip_flags := dict_set (skip_flags sd) ''B'' False\<rparr>) \<and>
         turn 1 sd = Inr (run_log sd ''B'' # lines, s') \<and>
         time s' = time sd \<and> queues s' = queues sd \<and> \<not> skip_flag_get s' ''B'' \<and>
         (\<forall>k. \<exists>more s''. turns 1 k s' = Inr (more, s'') \<and> \<not> skip_flag_get s'' ''B''))"
proof -
  let ?s = "snd (mark_skip cafe_state ''A'')"
  have h1: "sched_inv ?s" using cafe_state_inv by (rule mark_skip_inv)
  have h2: "queue_order ?s \<noteq> []" by (simp add: mark_skip_def cafe_state_def)
  have h3: "list_get (queue_order ?s) (rr_index ?s) = Inr ''A''"
    by (simp add: mark_skip_def cafe_state_def list_get_def py_index_def)
  have h5: "dict_has (skip_flags cafe_state) ''A''" "\<not> dict_has (skip_flags cafe_state) ''Z''"
    by (simp_all add: cafe_state_def dict_has_def)
  have h6: "dict_has (skip_flags cafe_state) ''B''" by (simp add: cafe_state_def dict_has_def)
  have h7: "list_get (queue_order (snd (mark_skip cafe_state ''B'')))
              (rr_index (snd (mark_skip cafe_state ''B''))) = Inr ''A''"
    by (simp add: mark_skip_def cafe_state_def list_get_def py_index_def)
  have h4: "skip_flag_get ?s ''A''"
    using mark_skip_once [of cafe_state "''A''" 1] h5 by blast
  have a: "snd (mark_skip cafe_state ''Z'') = cafe_state"
    using mark_skip_once [of cafe_state "''Z''" 1] h5 by blast
  have ba: "''B'' \<noteq> ''A''" by simp
  have others: "\<forall>k. k \<noteq> ''A'' \<longrightarrow> skip_flag_get ?s k = skip_flag_get cafe_state k"
    using mark_skip_once [of cafe_state "''A''" 1] h5 by blast
  have b: "skip_flag_get ?s ''B'' = skip_flag_get cafe_state ''B''"
    by (rule others [rule_format, OF ba])
  have c: "\<exists>lines s'. turn 1 ?s = Inr (run_log ?s ''A'' # lines, s') \<and>
      \<not> skip_flag_get s' ''A'' \<and> time s' = time ?s \<and> queues s' = queues ?s"
    using mark_skip_once [of ?s "''A''" 1] h1 h2 h3 h4 by blast
  note g = mark_skip_once [of cafe_state "''B''" 1, THEN conjunct2, THEN conjunct2,
      THEN conjunct2, THEN conjunct2, THEN conjunct2, THEN mp, OF conjI, OF cafe_state_inv h6]
  show ?thesis
    by (intro conjI h1 h2 h3 h4 h5 a b c cafe_state_inv h6 h7 g)
qed



text \<open>
  Claim C2. In every turn the snapshot is appended first and the pointer moves afterwards,
  so the \<open>next=\<close> of the snapshot names the queue just visited, in all three branches
  alike. The skip branch and the empty branch do so; the work branch moves the pointer
  first and takes the snapshot afterwards. In \<open>cafe_state\<close> the pointer is at \<open>A\<close>, which
  holds a task, and \<open>B\<close> is empty. \<open>RUN 1 2\<close> makes a work turn on \<open>A\<close>, whose snapshot says
  \<open>next=B\<close>, the queue not yet visited, and then an empty turn on \<open>B\<close>, whose snapshot
  says \<open>next=B\<close>, the queue just visited.
\<close>

theorem work_turn_snapshot_after_advance:
  "exec_all Scheduler_init cafe_commands = Some (Inr cafe_state) \<and>
   list_get (queue_order cafe_state) (rr_index cafe_state) = Inr ''A'' \<and>
   map_option (map_sum id fst) (run cafe_state 1 (Some 2)) =
     Some (Inr [''time=0 event=run queue=A'',
                ''time=1 event=work queue=A id=A-001 remaining=2'',
                ''display time=1 next=B'',
                ''display menu=[americano:2,cappuccino:3,hot_chocolate:4,latte:3,macchiato:2,mocha:4,tea:1]'',
                ''display A [1/2] -> [A-001:2]'',
                ''display B [0/1] -> []'',
                ''time=1 event=run queue=B'',
                ''display time=1 next=B'',
                ''display menu=[americano:2,cappuccino:3,hot_chocolate:4,latte:3,macchiato:2,mocha:4,tea:1]'',
                ''display A [1/2] -> [A-001:2]'',
                ''display B [0/1] -> []''])"
  by code_simp

text \<open>
  Claim C3, as stated: for every sequence of operations with arbitrary integer arguments
  the clock is non-negative and never decreases. A negative quantum makes a work turn
  add a negative amount: after \<open>CREATE A 2\<close>, \<open>ENQ A latte\<close>, \<open>CREATE B 1\<close> the clock is 0,
  and \<open>RUN -1 1\<close> leaves it at -1.
\<close>

theorem clock_negative_quantum_counterexample:
  "map_option (map_sum id time) (exec_all Scheduler_init cafe_commands) = Some (Inr 0) \<and>
   map_option (map_sum id time) (exec_all Scheduler_init (cafe_commands @ [RUN (- 1) (Some 1)]))
     = Some (Inr (- 1))"
  by code_simp

text \<open>
  Claim C3, amended. For every sequence of operations in which every quantum given to
  \<open>run\<close> is non-negative, the clock is non-negative and no further operation with a
  non-negative quantum decreases it; an operation other than \<open>run\<close> leaves it as it is,
  and a turn of \<open>run\<close> adds the work it performs: \<open>min quantum remaining\<close> of the head task
  in a work turn, nothing in a skip turn and in an empty turn.
\<close>

theorem clock_monotone:
  assumes "exec_all Scheduler_init cs = Some (Inr s)" "list_all nonneg_quantum cs"
  shows "0 \<le> time s \<and>
         (\<forall>c logs s'. nonneg_quantum c \<longrightarrow> exec s c = Some (Inr (logs, s')) \<longrightarrow>
            time s \<le> time s' \<and> ((\<forall>quantum steps. c \<noteq> RUN quantum steps) \<longrightarrow> time s' = time s)) \<and>
         (\<forall>quantum. 0 \<le> quantum \<longrightarrow> queue_order s \<noteq> [] \<longrightarrow>
            0 \<le> work_amount quantum s \<and>
            (\<exists>lines s'. turn quantum s = Inr (lines, s') \<and>
               time s' = time s + work_amount quantum s)) \<and>
         (\<forall>quantum k lines s'. 0 \<le> quantum \<longrightarrow> turns quantum k s = Inr (lines, s') \<longrightarrow>
            time s \<le> time s')"
proof -
  note i = reachable_inv [OF assms(1)]
  have 1: "0 \<le> time s" using i(2) assms(2) by simp
  have 2: "\<forall>c logs s'. nonneg_quantum c \<longrightarrow> exec s c = Some (Inr (logs, s')) \<longrightarrow>
            time s \<le> time s' \<and> ((\<forall>quantum steps. c \<noteq> RUN quantum steps) \<longrightarrow> time s' = time s)"
    using exec_inv(2,3) [OF i(1)] by blast
  have 3: "\<forall>quantum. 0 \<le> quantum \<longrightarrow> queue_order s \<noteq> [] \<longrightarrow>
            0 \<le> work_amount quantum s \<and>
            (\<exists>lines s'. turn quantum s = Inr (lines, s') \<and>
               time s' = time s + work_amount quantum s)"
    using work_amount_nonneg [OF i(1)] turn_time [OF i(1)] by blast
  have 4: "\<forall>quantum k lines s'. 0 \<le> quantum \<longrightarrow> turns quantum k s = Inr (lines, s') \<longrightarrow>
            time s \<le> time s'"
    using turns_time [OF i(1)] by blast
  from 1 2 3 4 show ?thesis by blast
qed

theorem clock_monotone_witness:
  "exec_all Scheduler_init cafe_commands = Some (Inr cafe_state) \<and>
   list_all nonneg_quantum cafe_commands \<and> nonneg_quantum (SKIP ''A'') \<and>
   exec cafe_state (SKIP ''A'') = Some (Inr (mark_skip cafe_state ''A'')) \<and>
   (0::int) \<le> 1 \<and> queue_order cafe_state \<noteq> [] \<and>
   0 \<le> time cafe_state \<and>
   time (snd (mark_skip cafe_state ''A'')) = time cafe_state \<and>
   0 \<le> work_amount 1 cafe_state \<and>
   (\<exists>lines s'. turn 1 cafe_state = Inr (lines, s') \<and>
      time s' = time cafe_state + work_amount 1 cafe_state)"
proof -
  have h2: "list_all nonneg_quantum cafe_commands"
    by (simp add: cafe_commands_def nonneg_quantum_def)
  have h3: "nonneg_quantum (SKIP ''A'')" by (simp add: nonneg_quantum_def)
  have h4: "exec cafe_state (SKIP ''A'') = Some (Inr (mark_skip cafe_state ''A''))" by simp
  have h4': "exec cafe_state (SKIP ''A'') =
               Some (Inr (fst (mark_skip cafe_state ''A''), snd (mark_skip cafe_state ''A'')))"
    by simp
  have h5: "queue_order cafe_state \<noteq> []" by (simp add: cafe_state_def)
  note m = clock_monotone [OF cafe_state_reached h2]
  have a: "0 \<le> time cafe_state" using m by blast
  have b: "time (snd (mark_skip cafe_state ''A'')) = time cafe_state"
    using m h3 h4' by blast
  have c: "0 \<le> work_amount 1 cafe_state \<and>
           (\<exists>lines s'. turn 1 cafe_state = Inr (lines, s') \<and>
              time s' = time cafe_state + work_amount 1 cafe_state)"
    using m h5 by simp
  from cafe_state_reached h2 h3 h4 h5 a b c show ?thesis by simp
qed

text \<open>
  Claim C9. In every state that a sequence of operations reaches from the initial state,
  every queue has \<open>0 \<le> size \<le> capacity\<close>; this holds again after every further operation
  (\<open>create_queue\<close>, \<open>enqueue\<close>, \<open>mark_skip\<close>, \<open>run\<close>, \<open>display\<close>) and after every turn inside a
  run; and \<open>QueueRR.enqueue\<close> on a queue whose size equals its capacity returns \<open>False\<close>
  and leaves the queue as it is.
\<close>

theorem capacity_invariant:
  assumes "exec_all Scheduler_init cs = Some (Inr s)"
  shows "cap_ok s \<and>
         (\<forall>c logs s'. exec s c = Some (Inr (logs, s')) \<longrightarrow> cap_ok s') \<and>
         (\<forall>quantum k lines s'. turns quantum k s = Inr (lines, s') \<longrightarrow> cap_ok s') \<and>
         (\<forall>q t. q_len q = capacity q \<longrightarrow> q_enqueue q t = Inr (False, q))"
proof -
  note i = reachable_inv(1) [OF assms]
  have 1: "cap_ok s" using i by (rule sched_inv_cap_ok)
  have 2: "\<forall>c logs s'. exec s c = Some (Inr (logs, s')) \<longrightarrow> cap_ok s'"
    using exec_inv(1) [OF i] sched_inv_cap_ok by blast
  have 3: "\<forall>quantum k lines s'. turns quantum k s = Inr (lines, s') \<longrightarrow> cap_ok s'"
    using turns_inv [OF i] sched_inv_cap_ok by blast
  have 4: "\<forall>q t. q_len q = capacity q \<longrightarrow> q_enqueue q t = Inr (False, q)"
    by (simp add: q_len_def q_enqueue_full)
  from 1 2 3 4 show ?thesis by blast
qed

theorem capacity_invariant_witness:
  "exec_all Scheduler_init full_commands = Some (Inr full_state) \<and> cap_ok full_state \<and>
   exec full_state (ENQ ''A'' ''tea'') =
     Some (Inr ([''time=0 event=reject queue=A reason=full''],
                full_state\<lparr>id_counters := [(''A'', 2)]\<rparr>)) \<and>
   cap_ok (full_state\<lparr>id_counters := [(''A'', 2)]\<rparr>) \<and>
   q_len \<lparr>queue_id = ''A'', capacity = 1,
           q_buf = [Some \<lparr>task_id = ''A-001'', remaining = 3\<rparr>], q_front = 0, q_size = 1\<rparr>
     = capacity \<lparr>queue_id = ''A'', capacity = 1,
           q_buf = [Some \<lparr>task_id = ''A-001'', remaining = 3\<rparr>], q_front = 0, q_size = 1\<rparr> \<and>
   q_enqueue \<lparr>queue_id = ''A'', capacity = 1,
           q_buf = [Some \<lparr>task_id = ''A-001'', remaining = 3\<rparr>], q_front = 0, q_size = 1\<rparr>
       \<lparr>task_id = ''A-002'', remaining = 1\<rparr>
     = Inr (False, \<lparr>queue_id = ''A'', capacity = 1,
           q_buf = [Some \<lparr>task_id = ''A-001'', remaining = 3\<rparr>], q_front = 0, q_size = 1\<rparr>)"
proof -
  note m = capacity_invariant [OF full_state_reached]
  have e: "exec full_state (ENQ ''A'' ''tea'') =
     Some (Inr ([''time=0 event=reject queue=A reason=full''],
                full_state\<lparr>id_counters := [(''A'', 2)]\<rparr>))"
    by code_simp
  have l: "q_len \<lparr>queue_id = ''A'', capacity = 1,
           q_buf = [Some \<lparr>task_id = ''A-001'', remaining = 3\<rparr>], q_front = 0, q_size = 1\<rparr>
     = capacity \<lparr>queue_id = ''A'', capacity = 1,
           q_buf = [Some \<lparr>task_id = ''A-001'', remaining = 3\<rparr>], q_front = 0, q_size = 1\<rparr>"
    by (simp add: q_len_def)
  from m e l full_state_reached show ?thesis by blast
qed

text \<open>
  Claim C10. In a work turn of a reachable state, \<open>peek\<close> on the non-empty queue returns a
  task, the \<open>dequeue\<close> that follows returns that task, and the re-enqueue of a task with
  work left returns \<open>True\<close>: no assertion fails, the turn returns, and a task with work
  left gets a \<open>work\<close> line, never the \<open>finish\<close> line of the defensive branch.
\<close>

theorem work_branch_safe:
  assumes "exec_all Scheduler_init cs = Some (Inr s)" "queue_order s \<noteq> []"
    "list_get (queue_order s) (rr_index s) = Inr qid" "dict_get (queues s) qid = Inr q"
    "q_len q \<noteq> 0"
  shows "\<exists>t t' b q2 q3 ev s2.
           q_peek q = Inr (Some t) \<and>
           t' = t\<lparr>remaining := remaining t - min quantum (remaining t)\<rparr> \<and>
           list_set (q_buf q) (q_front q) (Some t') = Inr b \<and>
           q_dequeue (q\<lparr>q_buf := b\<rparr>) = Inr (Some t', q2) \<and>
           q_enqueue q2 t' = Inr (True, q3) \<and>
           work_turn quantum s qid q = Inr (ev, s2) \<and>
           (remaining t' \<noteq> 0 \<longrightarrow> ev = work_log s2 qid t' \<and> ev \<noteq> finish_log s2 qid t') \<and>
           (remaining t' = 0 \<longrightarrow> ev = finish_log s2 qid t') \<and>
           (\<exists>lines s'. turn quantum s = Inr (lines, s'))"
proof -
  note i = reachable_inv(1) [OF assms(1)]
  have qid: "qid = cur s" using sched_inv_cur(1) [OF i assms(2)] assms(3) by simp
  have q: "map_of (queues s) (cur s) = Some q" using assms(4) by (simp add: dict_get_Inr qid)
  have ne: "q_size q \<noteq> 0" using assms(5) by (simp add: q_len_def)
  note qf = sched_inv_map_of [OF i q]
  define t where "t = hd (q_tasks q)"
  define t' where "t' = t\<lparr>remaining := remaining t - min quantum (remaining t)\<rparr>"
  from work_calls_wf [OF qf(1) ne, of quantum] obtain b q2 q3 where
    pk: "q_peek q = Inr (Some t)"
    and ls: "list_set (q_buf q) (q_front q) (Some t') = Inr b"
    and dq: "q_dequeue (q\<lparr>q_buf := b\<rparr>) = Inr (Some t', q2)"
    and enq: "q_enqueue q2 t' = Inr (True, q3)"
    unfolding t_def t'_def by blast
  define s2 where "s2 = s\<lparr>time := time s + min quantum (remaining t),
                           queues := dict_set (queues s) qid (if remaining t' = 0 then q2 else q3)\<rparr>"
  define ev where "ev = (if remaining t' = 0 then finish_log s2 qid t' else work_log s2 qid t')"
  have r: "remaining t' = remaining t - min quantum (remaining t)" by (simp add: t'_def)
  have wt: "work_turn quantum s qid q = Inr (ev, s2)"
    using work_turn_steps [OF pk ls [unfolded t'_def] dq [unfolded t'_def] enq [unfolded t'_def], of s qid]
    by (simp add: ev_def s2_def r t'_def finish_log_def work_log_def)
  have 1: "remaining t' \<noteq> 0 \<longrightarrow> ev = work_log s2 qid t' \<and> ev \<noteq> finish_log s2 qid t'"
    using finish_not_work [of s2 qid t' t'] by (auto simp: ev_def)
  have 2: "remaining t' = 0 \<longrightarrow> ev = finish_log s2 qid t'" by (simp add: ev_def)
  have 3: "\<exists>lines s'. turn quantum s = Inr (lines, s')"
    using turn_total [OF i assms(2), of quantum] by blast
  from pk ls dq enq wt 1 2 3 show ?thesis unfolding t'_def by blast
qed

theorem work_branch_safe_witness:
  "exec_all Scheduler_init cafe_commands = Some (Inr cafe_state) \<and>
   queue_order cafe_state \<noteq> [] \<and>
   list_get (queue_order cafe_state) (rr_index cafe_state) = Inr ''A'' \<and>
   dict_get (queues cafe_state) ''A'' = Inr cafe_queue_A \<and> q_len cafe_queue_A \<noteq> 0 \<and>
   (\<exists>t t' b q2 q3 ev s2.
           q_peek cafe_queue_A = Inr (Some t) \<and>
           t' = t\<lparr>remaining := remaining t - min 1 (remaining t)\<rparr> \<and>
           list_set (q_buf cafe_queue_A) (q_front cafe_queue_A) (Some t') = Inr b \<and>
           q_dequeue (cafe_queue_A\<lparr>q_buf := b\<rparr>) = Inr (Some t', q2) \<and>
           q_enqueue q2 t' = Inr (True, q3) \<and>
           work_turn 1 cafe_state ''A'' cafe_queue_A = Inr (ev, s2) \<and>
           (remaining t' \<noteq> 0 \<longrightarrow> ev = work_log s2 ''A'' t' \<and> ev \<noteq> finish_log s2 ''A'' t') \<and>
           (remaining t' = 0 \<longrightarrow> ev = finish_log s2 ''A'' t') \<and>
           (\<exists>lines s'. turn 1 cafe_state = Inr (lines, s')))"
proof -
  have h2: "queue_order cafe_state \<noteq> []" by (simp add: cafe_state_def)
  have h3: "list_get (queue_order cafe_state) (rr_index cafe_state) = Inr ''A''"
    by (simp add: cafe_state_def list_get_def py_index_def)
  have h4: "dict_get (queues cafe_state) ''A'' = Inr cafe_queue_A"
    by (simp add: cafe_state_def dict_get_def)
  have h5: "q_len cafe_queue_A \<noteq> 0" by (simp add: cafe_queue_A_def q_len_def)
  show ?thesis
    by (intro conjI cafe_state_reached h2 h3 h4 h5
        work_branch_safe [OF cafe_state_reached h2 h3 h4 h5])
qed

text \<open>
  Claim C6. From a reachable state with at least one queue: \<open>run\<close> without a step count,
  when it returns, has made \<open>k \<ge> 1\<close> turns; after the last of them every queue is empty
  (no task in it) and every flag is clear, and after each earlier turn some queue holds a
  task or some flag is set, so it stops exactly at the first completed turn after which
  all queues are empty and all flags are clear; with a
  quantum of at least one it does return; and \<open>run\<close> with a step count between one and
  the number of queues returns after exactly that many turns, whatever the queues hold.
\<close>

theorem run_termination:
  assumes "exec_all Scheduler_init cs = Some (Inr s)" "queue_order s \<noteq> []"
  shows "(1 \<le> quantum \<longrightarrow> (\<exists>logs s'. run s quantum None = Some (Inr (logs, s')))) \<and>
         (\<forall>logs s'. run s quantum None = Some (Inr (logs, s')) \<longrightarrow>
            (\<exists>k. 0 < k \<and> run_loop quantum None 0 [] s = Some (Inr (int k, logs, s')) \<and>
               turns quantum k s = Inr (logs, s') \<and> quiescent s' = Inr True \<and>
               (\<forall>qid q. dict_get (queues s') qid = Inr q \<longrightarrow>
                  q_len q = 0 \<and> tasks_list q = Inr []) \<and>
               (\<forall>qid. \<not> skip_flag_get s' qid) \<and>
               (\<forall>j. 0 < j \<and> j < k \<longrightarrow>
                  (\<exists>lj sj. turns quantum j s = Inr (lj, sj) \<and> quiescent sj = Inr False \<and>
                     (\<exists>qid. (\<exists>q. dict_get (queues sj) qid = Inr q \<and> q_len q \<noteq> 0) \<or>
                            skip_flag_get sj qid))))) \<and>
         (\<forall>m. 1 \<le> m \<and> m \<le> int (length (queue_order s)) \<longrightarrow>
            (\<exists>logs s'. run s quantum (Some m) = Some (Inr (logs, s')) \<and>
               run_loop quantum (Some m) 0 [] s = Some (Inr (m, logs, s')) \<and>
               turns quantum (nat m) s = Inr (logs, s')))"
proof -
  note i = reachable_inv(1) [OF assms(1)]
  have none: "run s quantum None =
           (case run_loop quantum None 0 [] s of
              None \<Rightarrow> None
            | Some (Inl e) \<Rightarrow> Some (Inl e)
            | Some (Inr (turns_done, logs, s')) \<Rightarrow> Some (Inr (logs, s')))"
    by (rule run_start [OF i assms(2)]) simp
  have 1: "\<exists>logs s'. run s quantum None = Some (Inr (logs, s'))" if q: "1 \<le> quantum"
  proof -
    from run_loop_none_terminates [OF q i assms(2), of 0 "[]"] obtain r where
      r: "run_loop quantum None 0 [] s = Some r" by blast
    from run_loop_sound [OF r i assms(2)] obtain k lines s' where
      "r = Inr (0 + int k, [] @ lines, s')" by blast
    with r none show ?thesis by simp
  qed
  have 2: "\<exists>k. 0 < k \<and> run_loop quantum None 0 [] s = Some (Inr (int k, logs, s')) \<and>
               turns quantum k s = Inr (logs, s') \<and> quiescent s' = Inr True \<and>
               (\<forall>qid q. dict_get (queues s') qid = Inr q \<longrightarrow>
                  q_len q = 0 \<and> tasks_list q = Inr []) \<and>
               (\<forall>qid. \<not> skip_flag_get s' qid) \<and>
               (\<forall>j. 0 < j \<and> j < k \<longrightarrow>
                  (\<exists>lj sj. turns quantum j s = Inr (lj, sj) \<and> quiescent sj = Inr False \<and>
                     (\<exists>qid. (\<exists>q. dict_get (queues sj) qid = Inr q \<and> q_len q \<noteq> 0) \<or>
                            skip_flag_get sj qid)))"
    if rn: "run s quantum None = Some (Inr (logs, s'))" for logs s'
  proof -
    from rn none obtain r where r: "run_loop quantum None 0 [] s = Some r"
      by (cases "run_loop quantum None 0 [] s") auto
    from run_loop_sound [OF r i assms(2)] obtain k lines s1 where
      rr: "r = Inr (0 + int k, [] @ lines, s1)" and tk: "turns quantum k s = Inr (lines, s1)"
      and k: "0 < k" and q: "quiescent s1 = Inr True"
      and e: "\<forall>j. 0 < j \<and> j < k \<longrightarrow>
                  (\<exists>lj sj. turns quantum j s = Inr (lj, sj) \<and> quiescent sj = Inr False)"
      by blast
    from run_loop_sound [OF r i assms(2)] rr have i1: "sched_inv s1" by auto
    have fin: "(\<forall>qid q. dict_get (queues s1) qid = Inr q \<longrightarrow> q_len q = 0) \<and>
               (\<forall>qid. \<not> skip_flag_get s1 qid)"
      using quiescent_explicit(1) [OF i1] q by simp
    then have f1: "\<forall>qid q. dict_get (queues s1) qid = Inr q \<longrightarrow>
                     q_len q = 0 \<and> tasks_list q = Inr []"
      using tasks_list_empty [OF i1] by blast
    have f2: "\<forall>qid. \<not> skip_flag_get s1 qid" using fin by blast
    have e': "\<forall>j. 0 < j \<and> j < k \<longrightarrow>
                  (\<exists>lj sj. turns quantum j s = Inr (lj, sj) \<and> quiescent sj = Inr False \<and>
                     (\<exists>qid. (\<exists>q. dict_get (queues sj) qid = Inr q \<and> q_len q \<noteq> 0) \<or>
                            skip_flag_get sj qid))"
    proof (intro allI impI)
      fix j assume "0 < j \<and> j < k"
      with e obtain lj sj where tj: "turns quantum j s = Inr (lj, sj)"
        and qj: "quiescent sj = Inr False" by blast
      have "sched_inv sj" using i tj by (rule turns_inv)
      from quiescent_explicit(2) [OF this] qj
      have "\<exists>qid. (\<exists>q. dict_get (queues sj) qid = Inr q \<and> q_len q \<noteq> 0) \<or> skip_flag_get sj qid"
        by simp
      with tj qj show "\<exists>lj sj. turns quantum j s = Inr (lj, sj) \<and> quiescent sj = Inr False \<and>
                     (\<exists>qid. (\<exists>q. dict_get (queues sj) qid = Inr q \<and> q_len q \<noteq> 0) \<or>
                            skip_flag_get sj qid)"
        by blast
    qed
    from rn none r rr have "logs = lines" "s' = s1" by simp_all
    with r rr tk k q f1 f2 e' show ?thesis by (intro exI [of _ k]) simp
  qed
  have 3: "\<exists>logs s'. run s quantum (Some m) = Some (Inr (logs, s')) \<and>
               run_loop quantum (Some m) 0 [] s = Some (Inr (m, logs, s')) \<and>
               turns quantum (nat m) s = Inr (logs, s')"
    if m: "1 \<le> m \<and> m \<le> int (length (queue_order s))" for m
  proof -
    have st: "run s quantum (Some m) =
           (case run_loop quantum (Some m) 0 [] s of
              None \<Rightarrow> None
            | Some (Inl e) \<Rightarrow> Some (Inl e)
            | Some (Inr (turns_done, logs, s')) \<Rightarrow> Some (Inr (logs, s')))"
      using m by (intro run_start [OF i assms(2)]) simp
    from run_loop_steps [OF i assms(2), of quantum m 0 "[]"] obtain r where
      r: "run_loop quantum (Some m) 0 [] s = Some r" by blast
    from run_loop_sound [OF r i assms(2)] obtain k lines s' where
      rr: "r = Inr (0 + int k, [] @ lines, s')" and tk: "turns quantum k s = Inr (lines, s')"
      and km: "int k = max 0 (m - 0)"
      by blast
    from km m have k: "int k = m" "k = nat m" by simp_all
    from r rr k tk st show ?thesis
      by (intro exI [of _ lines] exI [of _ s']) simp
  qed
  from 1 2 3 show ?thesis by blast
qed

theorem run_termination_witness:
  "exec_all Scheduler_init cafe_commands = Some (Inr cafe_state) \<and>
   queue_order cafe_state \<noteq> [] \<and> (1::int) \<le> 1 \<and>
   (1::int) \<le> 2 \<and> (2::int) \<le> int (length (queue_order cafe_state)) \<and>
   (\<exists>logs s' k. run cafe_state 1 None = Some (Inr (logs, s')) \<and> 0 < k \<and>
      turns 1 k cafe_state = Inr (logs, s') \<and> quiescent s' = Inr True \<and>
      (\<forall>qid q. dict_get (queues s') qid = Inr q \<longrightarrow> q_len q = 0 \<and> tasks_list q = Inr []) \<and>
      (\<forall>qid. \<not> skip_flag_get s' qid)) \<and>
   (\<exists>logs s'. run cafe_state 1 (Some 2) = Some (Inr (logs, s')) \<and>
      run_loop 1 (Some 2) 0 [] cafe_state = Some (Inr (2, logs, s')) \<and>
      turns 1 (nat 2) cafe_state = Inr (logs, s'))"
proof -
  have h2: "queue_order cafe_state \<noteq> []" by (simp add: cafe_state_def)
  have h3: "(1::int) \<le> 2 \<and> (2::int) \<le> int (length (queue_order cafe_state))"
    by (simp add: cafe_state_def)
  note m = run_termination [OF cafe_state_reached h2, of 1]
  from m obtain logs s' where r: "run cafe_state 1 None = Some (Inr (logs, s'))" by auto
  with m have "\<exists>k. 0 < k \<and> turns 1 k cafe_state = Inr (logs, s') \<and> quiescent s' = Inr True \<and>
      (\<forall>qid q. dict_get (queues s') qid = Inr q \<longrightarrow> q_len q = 0 \<and> tasks_list q = Inr []) \<and>
      (\<forall>qid. \<not> skip_flag_get s' qid)"
    by blast
  with r have a: "\<exists>logs s' k. run cafe_state 1 None = Some (Inr (logs, s')) \<and> 0 < k \<and>
      turns 1 k cafe_state = Inr (logs, s') \<and> quiescent s' = Inr True \<and>
      (\<forall>qid q. dict_get (queues s') qid = Inr q \<longrightarrow> q_len q = 0 \<and> tasks_list q = Inr []) \<and>
      (\<forall>qid. \<not> skip_flag_get s' qid)"
    by blast
  have b: "\<exists>logs s'. run cafe_state 1 (Some 2) = Some (Inr (logs, s')) \<and>
      run_loop 1 (Some 2) 0 [] cafe_state = Some (Inr (2, logs, s')) \<and>
      turns 1 (nat 2) cafe_state = Inr (logs, s')"
    using m h3 by blast
  from cafe_state_reached h2 h3 a b show ?thesis by simp
qed

end
